theory Spec2Isabelle
  imports Main
begin

section \<open>Strings\<close>

text \<open>
  A JavaScript string is a sequence of UTF-16 code units, and \<open>length\<close>, \<open>slice\<close> and
  indexing count code units. A code unit is modelled by its number, so that the glyphs the
  renderer inserts (\<open>U+2500\<close>, \<open>U+2022\<close>, \<open>U+2502\<close>) are ordinary characters. Every JavaScript
  number of the program is an integer offset, length, row or column, modelled by \<open>int\<close>.
\<close>

type_synonym jchar = nat
type_synonym jstring = "jchar list"

definition str :: "string \<Rightarrow> jstring" where
  "str s = map of_char s"

text \<open>The characters \<open>\s\<close> matches and \<open>trim\<close> removes (WhiteSpace and LineTerminator).\<close>

definition isWhitespace :: "jchar \<Rightarrow> bool" where
  "isWhitespace c \<longleftrightarrow>
     c = 9 \<or> c = 10 \<or> c = 11 \<or> c = 12 \<or> c = 13 \<or> c = 32 \<or> c = 160 \<or> c = 5760
     \<or> (8192 \<le> c \<and> c \<le> 8202)
     \<or> c = 8232 \<or> c = 8233 \<or> c = 8239 \<or> c = 8287 \<or> c = 12288 \<or> c = 65279"

text \<open>The characters the regular expression \<open>.\<close> does not match.\<close>

definition isLineTerminator :: "jchar \<Rightarrow> bool" where
  "isLineTerminator c \<longleftrightarrow> c = 10 \<or> c = 13 \<or> c = 8232 \<or> c = 8233"

definition isDigit :: "jchar \<Rightarrow> bool" where
  "isDigit c \<longleftrightarrow> 48 \<le> c \<and> c \<le> 57"

definition trimStart :: "jstring \<Rightarrow> jstring" where
  "trimStart s = dropWhile isWhitespace s"

definition trimEnd :: "jstring \<Rightarrow> jstring" where
  "trimEnd s = rev (dropWhile isWhitespace (rev s))"

definition trim :: "jstring \<Rightarrow> jstring" where
  "trim s = trimEnd (trimStart s)"

definition startsWith :: "jstring \<Rightarrow> jstring \<Rightarrow> bool" where
  "startsWith s p \<longleftrightarrow> take (length p) s = p"

text \<open>
  \<open>s.slice(a, b)\<close>: a negative index counts from the end, both indices are clamped to the
  string, and an empty range gives the empty string.
\<close>

definition slice :: "jstring \<Rightarrow> int \<Rightarrow> int \<Rightarrow> jstring" where
  "slice s a b =
     (let n = int (length s);
          lo = (if a < 0 then max (n + a) 0 else min a n);
          hi = (if b < 0 then max (n + b) 0 else min b n)
      in take (nat (hi - lo)) (drop (nat lo) s))"

definition sliceFrom :: "jstring \<Rightarrow> int \<Rightarrow> jstring" where
  "sliceFrom s a = slice s a (int (length s))"

text \<open>
  \<open>s.lastIndexOf(c, fromIndex)\<close> for a one-character search string: the largest index
  \<open>i \<le> fromIndex\<close> with \<open>s[i] = c\<close>, a negative \<open>fromIndex\<close> counting as 0, and \<open>-1\<close> when
  there is none.
\<close>

definition lastIndexOf :: "jstring \<Rightarrow> jchar \<Rightarrow> int \<Rightarrow> int" where
  "lastIndexOf s c fromIndex =
     (let pre = take (nat (max fromIndex 0) + 1) s;
          suf = takeWhile (\<lambda>x. x \<noteq> c) (rev pre)
      in if length suf = length pre then - 1
         else int (length pre) - 1 - int (length suf))"

text \<open>\<open>lines.join("\n")\<close> and \<open>content.split("\n")\<close>.\<close>

fun joinLines :: "jstring list \<Rightarrow> jstring" where
  "joinLines [] = []"
| "joinLines [l] = l"
| "joinLines (l # m # ls) = l @ 10 # joinLines (m # ls)"

fun splitLines :: "jstring \<Rightarrow> jstring list" where
  "splitLines [] = [[]]"
| "splitLines (c # cs) =
     (if c = 10 then [] # splitLines cs
      else (case splitLines cs of
              [] \<Rightarrow> [[c]]
            | l # ls \<Rightarrow> (c # l) # ls))"

section \<open>Segments and rendered lines (types.ts)\<close>

datatype styleType =
  TyH1 | TyH2 | TyH3 | TyH4 | TyBold | TyItalic | TyCode | TyCodeBlock | TyLink
  | TyListItem | TyBlockquote | TyBody

text \<open>\<open>SegmentStyle\<close>: every field is optional; \<open>stype\<close> is the field \<open>type\<close>.\<close>

record SegmentStyle =
  bold :: "bool option"
  italic :: "bool option"
  underline :: "bool option"
  strikethrough :: "bool option"
  color :: "string option"
  backgroundColor :: "string option"
  dimColor :: "bool option"
  stype :: "styleType option"

definition emptyStyle :: SegmentStyle where
  "emptyStyle = \<lparr> bold = None, italic = None, underline = None, strikethrough = None,
     color = None, backgroundColor = None, dimColor = None, stype = None \<rparr>"

text \<open>The object spread \<open>{...a, ...b}\<close>: a field of \<open>b\<close> that is present overrides \<open>a\<close>'s.\<close>

definition orElse :: "'a option \<Rightarrow> 'a option \<Rightarrow> 'a option" where
  "orElse b a = (case b of None \<Rightarrow> a | Some v \<Rightarrow> Some v)"

definition spread :: "SegmentStyle \<Rightarrow> SegmentStyle \<Rightarrow> SegmentStyle" where
  "spread a b = \<lparr> bold = orElse (bold b) (bold a), italic = orElse (italic b) (italic a),
     underline = orElse (underline b) (underline a),
     strikethrough = orElse (strikethrough b) (strikethrough a),
     color = orElse (color b) (color a),
     backgroundColor = orElse (backgroundColor b) (backgroundColor a),
     dimColor = orElse (dimColor b) (dimColor a), stype = orElse (stype b) (stype a) \<rparr>"

text \<open>
  The records share their field names as the interfaces do: \<open>sourceOffset\<close> is a field of
  \<open>LineSegment\<close>, \<open>RenderedLine\<close>, \<open>Block\<close> and \<open>PositionMapping\<close>, \<open>sourceLength\<close> of the first
  two. \<open>stext\<close> is the field \<open>text\<close>.
\<close>

record Located =
  sourceOffset :: int

record Spanned = Located +
  sourceLength :: int

record LineSegment = Spanned +
  stext :: jstring
  style :: SegmentStyle

record RenderedLine = Spanned +
  lineNumber :: int
  segments :: "LineSegment list"
  indent :: int
  isBlank :: bool

text \<open>
  The intra-segment mapping of the specification: position \<open>i\<close> of a segment's text is the
  character of the source at offset \<open>sourceOffset + i\<close>. \<open>standsAt doc offset t\<close> says that
  the string \<open>t\<close> stands in \<open>doc\<close> at \<open>offset\<close>, character by character.
\<close>

definition standsAt :: "jstring \<Rightarrow> int \<Rightarrow> jstring \<Rightarrow> bool" where
  "standsAt doc offset t \<longleftrightarrow>
     list_all (\<lambda>i. 0 \<le> offset + int i \<and> offset + int i < int (length doc)
                  \<and> doc ! nat (offset + int i) = t ! i) [0..<length t]"

definition intraSegment :: "jstring \<Rightarrow> LineSegment \<Rightarrow> bool" where
  "intraSegment doc segment \<longleftrightarrow> standsAt doc (sourceOffset segment) (stext segment)"

section \<open>Reflow: wordWrap and wordWrapSegments\<close>

text \<open>
  The break point of one pass of the loop of \<open>wordWrap\<close>: the last space at or before the
  column \<open>width\<close>, or \<open>width\<close> itself when there is none or when it is the first character.
\<close>

definition breakPoint :: "jstring \<Rightarrow> int \<Rightarrow> int" where
  "breakPoint remaining width =
     (let found = lastIndexOf remaining 32 width
      in if found = - 1 \<or> found = 0 then width else found)"

text \<open>
  The \<open>while\<close> loop of \<open>wordWrap\<close>, with \<open>remaining\<close> and \<open>result\<close> as its state. The loop need
  not end (at a width below 1 the break point removes nothing), so it is a partial function:
  \<open>None\<close> is a loop that never returns.
\<close>

partial_function (option) wordWrapLoop ::
  "int \<Rightarrow> jstring \<Rightarrow> jstring list \<Rightarrow> jstring list option" where
  "wordWrapLoop width remaining result =
     (if length remaining > 0 then
        (if int (length remaining) \<le> width then Some (result @ [remaining])
         else wordWrapLoop width
                (trimStart (sliceFrom remaining (breakPoint remaining width)))
                (result @ [trimEnd (slice remaining 0 (breakPoint remaining width))]))
      else Some result)"

declare wordWrapLoop.simps [code]

definition wordWrap :: "jstring \<Rightarrow> int \<Rightarrow> jstring list option" where
  "wordWrap text width =
     (if int (length text) \<le> width then Some [text] else wordWrapLoop width text [])"

text \<open>
  The inner loop of \<open>wordWrapSegments\<close>: the pieces of the segments that overlap the
  character range \<open>[lineTextStart, lineTextEnd)\<close> of the flattened text; \<open>segmentOffset\<close> is
  the position of the next segment in it.
\<close>

fun overlapSegments :: "LineSegment list \<Rightarrow> int \<Rightarrow> int \<Rightarrow> int \<Rightarrow> LineSegment list" where
  "overlapSegments [] segmentOffset lineTextStart lineTextEnd = []"
| "overlapSegments (segment # rest) segmentOffset lineTextStart lineTextEnd =
     (let segStart = segmentOffset;
          segEnd = segmentOffset + int (length (stext segment));
          textStartInSeg = max segStart lineTextStart - segStart;
          textEndInSeg = min segEnd lineTextEnd - segStart
      in (if segEnd > lineTextStart \<and> segStart < lineTextEnd \<and> textEndInSeg > textStartInSeg
          then [\<lparr> sourceOffset = sourceOffset segment + textStartInSeg,
                  sourceLength = textEndInSeg - textStartInSeg,
                  stext = slice (stext segment) textStartInSeg textEndInSeg,
                  style = style segment \<rparr>]
          else [])
         @ overlapSegments rest segEnd lineTextStart lineTextEnd)"

text \<open>
  The outer loop over the wrapped lines, with \<open>textOffset\<close> and \<open>lineNumber\<close> as its state. A
  wrapped line that overlaps no segment produces no rendered line.
\<close>

fun wrapLines ::
  "LineSegment list \<Rightarrow> jstring \<Rightarrow> jstring list \<Rightarrow> int \<Rightarrow> int \<Rightarrow> RenderedLine list" where
  "wrapLines segs fullText [] textOffset lineNo = []"
| "wrapLines segs fullText (wrappedLine # rest) textOffset lineNo =
     (let lineSegments =
            overlapSegments segs 0 textOffset (textOffset + int (length wrappedLine));
          afterLine = textOffset + int (length wrappedLine);
          nextOffset =
            (if afterLine < int (length fullText) \<and> fullText ! nat afterLine = 32
             then afterLine + 1 else afterLine)
      in (case lineSegments of
            [] \<Rightarrow> wrapLines segs fullText rest nextOffset lineNo
          | first # _ \<Rightarrow>
              \<lparr> sourceOffset = sourceOffset first,
                sourceLength = sum_list (map sourceLength lineSegments),
                lineNumber = lineNo, segments = lineSegments, indent = 0, isBlank = False \<rparr>
              # wrapLines segs fullText rest nextOffset (lineNo + 1)))"

definition wordWrapSegments :: "LineSegment list \<Rightarrow> int \<Rightarrow> RenderedLine list option" where
  "wordWrapSegments segs width =
     (let fullText = concat (map stext segs);
          firstOffset = (case segs of [] \<Rightarrow> 0 | s # _ \<Rightarrow> sourceOffset s)
      in if length fullText = 0
         then Some [\<lparr> sourceOffset = firstOffset, sourceLength = 0, lineNumber = 1,
                segments = [\<lparr> sourceOffset = firstOffset, sourceLength = 0, stext = [],
                              style = emptyStyle \<rparr>],
                indent = 0, isBlank = True \<rparr>]
         else (case wordWrap fullText width of
                 None \<Rightarrow> None
               | Some wrappedLines \<Rightarrow> Some (wrapLines segs fullText wrappedLines 0 1)))"

section \<open>Inline parser: parseInline\<close>

text \<open>
  The constant \<open>MARKDOWN_STYLES\<close> of types.ts, one definition for each key the renderer reads.
\<close>

definition MARKDOWN_STYLES_h1 :: SegmentStyle where
  "MARKDOWN_STYLES_h1 =
     emptyStyle\<lparr> bold := Some True, color := Some ''white'', stype := Some TyH1 \<rparr>"

definition MARKDOWN_STYLES_h2 :: SegmentStyle where
  "MARKDOWN_STYLES_h2 =
     emptyStyle\<lparr> bold := Some True, color := Some ''white'', stype := Some TyH2 \<rparr>"

definition MARKDOWN_STYLES_h3 :: SegmentStyle where
  "MARKDOWN_STYLES_h3 =
     emptyStyle\<lparr> bold := Some True, color := Some ''cyan'', stype := Some TyH3 \<rparr>"

definition MARKDOWN_STYLES_h4 :: SegmentStyle where
  "MARKDOWN_STYLES_h4 = emptyStyle\<lparr> color := Some ''cyan'', stype := Some TyH4 \<rparr>"

definition MARKDOWN_STYLES_bold :: SegmentStyle where
  "MARKDOWN_STYLES_bold = emptyStyle\<lparr> bold := Some True, stype := Some TyBold \<rparr>"

definition MARKDOWN_STYLES_italic :: SegmentStyle where
  "MARKDOWN_STYLES_italic = emptyStyle\<lparr> italic := Some True, stype := Some TyItalic \<rparr>"

definition MARKDOWN_STYLES_code :: SegmentStyle where
  "MARKDOWN_STYLES_code = emptyStyle\<lparr> color := Some ''yellow'', stype := Some TyCode \<rparr>"

definition MARKDOWN_STYLES_codeBlock :: SegmentStyle where
  "MARKDOWN_STYLES_codeBlock =
     emptyStyle\<lparr> color := Some ''gray'', stype := Some TyCodeBlock \<rparr>"

definition MARKDOWN_STYLES_link :: SegmentStyle where
  "MARKDOWN_STYLES_link =
     emptyStyle\<lparr> underline := Some True, color := Some ''blue'', stype := Some TyLink \<rparr>"

definition MARKDOWN_STYLES_blockquote :: SegmentStyle where
  "MARKDOWN_STYLES_blockquote =
     emptyStyle\<lparr> color := Some ''gray'', dimColor := Some True, stype := Some TyBlockquote \<rparr>"

text \<open>
  The pattern
  \<^verbatim>\<open>/(\*\*(.+?)\*\*|\*(.+?)\*|`([^`]+)`|\[([^\]]+)\]\(([^)]+)\))/g\<close>
  has four alternatives, tried in this order at each position.

  \<open>lazyDotPlus closing s\<close> is what the lazy group \<open>(.+?)\<close> captures at the head of \<open>s\<close> when
  \<open>closing\<close> must follow: the shortest non-empty run of characters other than line
  terminators after which \<open>closing\<close> stands.
\<close>

fun lazyDotPlus :: "jstring \<Rightarrow> jstring \<Rightarrow> jstring option" where
  "lazyDotPlus closing [] = None"
| "lazyDotPlus closing (c # cs) =
     (if isLineTerminator c then None
      else if startsWith cs closing then Some [c]
      else map_option ((#) c) (lazyDotPlus closing cs))"

text \<open>
  \<open>classPlus x s\<close> is what the greedy group \<open>([^x]+)\<close> captures at the head of \<open>s\<close> when the
  character \<open>x\<close> must follow: the whole run of characters other than \<open>x\<close>, which must not be
  empty and must not reach the end of the string.
\<close>

definition classPlus :: "jchar \<Rightarrow> jstring \<Rightarrow> jstring option" where
  "classPlus x s =
     (let run = takeWhile (\<lambda>c. c \<noteq> x) s
      in if 0 < length run \<and> length run < length s then Some run else None)"

datatype inlineKind = BoldSpan | ItalicSpan | CodeSpan | LinkSpan

text \<open>
  A match of the pattern at the head of \<open>s\<close>: the alternative that matched, the captured
  content (\<open>match[2]\<close> to \<open>match[5]\<close>) and the length of \<open>match[0]\<close>.
\<close>

definition matchInline :: "jstring \<Rightarrow> (inlineKind \<times> jstring \<times> nat) option" where
  "matchInline s =
     (case (if startsWith s [42, 42] then lazyDotPlus [42, 42] (drop 2 s) else None) of
        Some content \<Rightarrow> Some (BoldSpan, content, length content + 4)
      | None \<Rightarrow>
     (case (if startsWith s [42] then lazyDotPlus [42] (drop 1 s) else None) of
        Some content \<Rightarrow> Some (ItalicSpan, content, length content + 2)
      | None \<Rightarrow>
     (case (if startsWith s [96] then classPlus 96 (drop 1 s) else None) of
        Some content \<Rightarrow> Some (CodeSpan, content, length content + 2)
      | None \<Rightarrow>
     (case (if startsWith s [91] then classPlus 93 (drop 1 s) else None) of
        Some linkText \<Rightarrow>
          (let rest = drop (length linkText + 2) s
           in case (if startsWith rest [40] then classPlus 41 (drop 1 rest) else None) of
                Some url \<Rightarrow> Some (LinkSpan, linkText, length linkText + length url + 4)
              | None \<Rightarrow> None)
      | None \<Rightarrow> None))))"

text \<open>
  \<open>inlinePattern.exec\<close>: the leftmost position at or after \<open>lastIndex\<close> where the pattern
  matches; \<open>s\<close> is the text from position \<open>i\<close> on.
\<close>

fun findMatch :: "jstring \<Rightarrow> nat \<Rightarrow> (nat \<times> inlineKind \<times> jstring \<times> nat) option" where
  "findMatch [] i = None"
| "findMatch (c # cs) i =
     (case matchInline (c # cs) of
        Some (kind, content, len) \<Rightarrow> Some (i, kind, content, len)
      | None \<Rightarrow> findMatch cs (Suc i))"

text \<open>\<open>{ ...baseStyle, type: baseStyle.type || "body" }\<close> on a run of plain text.\<close>

definition plainSegment :: "jstring \<Rightarrow> int \<Rightarrow> SegmentStyle \<Rightarrow> LineSegment" where
  "plainSegment t offset baseStyle =
     \<lparr> sourceOffset = offset, sourceLength = int (length t), stext = t,
       style = baseStyle\<lparr> stype :=
         Some (case stype baseStyle of None \<Rightarrow> TyBody | Some ty \<Rightarrow> ty) \<rparr> \<rparr>"

text \<open>The number of characters of the opening delimiter that the offset skips.\<close>

fun skipOf :: "inlineKind \<Rightarrow> int" where
  "skipOf BoldSpan = 2"
| "skipOf ItalicSpan = 1"
| "skipOf CodeSpan = 1"
| "skipOf LinkSpan = 1"

fun styleOf :: "inlineKind \<Rightarrow> SegmentStyle" where
  "styleOf BoldSpan = MARKDOWN_STYLES_bold"
| "styleOf ItalicSpan = MARKDOWN_STYLES_italic"
| "styleOf CodeSpan = MARKDOWN_STYLES_code"
| "styleOf LinkSpan = MARKDOWN_STYLES_link"

definition spanSegment :: "inlineKind \<Rightarrow> jstring \<Rightarrow> int \<Rightarrow> SegmentStyle \<Rightarrow> LineSegment" where
  "spanSegment kind content matchStart baseStyle =
     \<lparr> sourceOffset = matchStart + skipOf kind, sourceLength = int (length content),
       stext = content, style = spread baseStyle (styleOf kind) \<rparr>"

text \<open>
  The opening delimiter of each alternative as the specification lists them (\<open>**\<close>, \<open>*\<close>,
  a backquote, \<open>[\<close>), to compare with what \<open>spanSegment\<close> skips.
\<close>

fun openingDelimiter :: "inlineKind \<Rightarrow> jstring" where
  "openingDelimiter BoldSpan = str ''**''"
| "openingDelimiter ItalicSpan = str ''*''"
| "openingDelimiter CodeSpan = str ''`''"
| "openingDelimiter LinkSpan = str ''[''"

lemma lazyDotPlus_length:
  "lazyDotPlus closing s = Some content \<Longrightarrow> 0 < length content \<and> length content \<le> length s"
  by (induction s arbitrary: content) (auto split: if_splits)

lemma matchInline_length:
  "matchInline s = Some (kind, content, len) \<Longrightarrow> 0 < len"
  by (auto simp: matchInline_def Let_def split: option.splits if_splits)

lemma findMatch_index:
  "findMatch s i = Some (index, kind, content, len) \<Longrightarrow>
   i \<le> index \<and> index < i + length s \<and> 0 < len"
proof (induction s arbitrary: i)
  case Nil
  then show ?case by simp
next
  case (Cons c cs)
  show ?case
  proof (cases "matchInline (c # cs)")
    case None
    with Cons.prems have "findMatch cs (Suc i) = Some (index, kind, content, len)" by simp
    from Cons.IH [OF this] show ?thesis by simp
  next
    case (Some m)
    with Cons.prems show ?thesis
      by (cases m) (auto dest: matchInline_length)
  qed
qed

text \<open>
  The \<open>while\<close> loop of \<open>parseInline\<close>, with \<open>lastEnd\<close> and \<open>segments\<close> as its state; it returns
  both.
\<close>

function parseInlineLoop ::
  "jstring \<Rightarrow> int \<Rightarrow> SegmentStyle \<Rightarrow> nat \<Rightarrow> LineSegment list \<Rightarrow> nat \<times> LineSegment list" where
  "parseInlineLoop text baseOffset baseStyle lastEnd segs =
     (case findMatch (drop lastEnd text) lastEnd of
        None \<Rightarrow> (lastEnd, segs)
      | Some (index, kind, content, len) \<Rightarrow>
          parseInlineLoop text baseOffset baseStyle (index + len)
            (segs
             @ (if index > lastEnd
                then [plainSegment (slice text (int lastEnd) (int index))
                        (baseOffset + int lastEnd) baseStyle]
                else [])
             @ [spanSegment kind content (baseOffset + int index) baseStyle]))"
  by pat_completeness auto
termination
proof (relation "measure (\<lambda>(t, baseOffset, baseStyle, lastEnd, segs). length t - lastEnd)")
  show "wf (measure (\<lambda>(t :: jstring, baseOffset :: int, baseStyle :: SegmentStyle,
          lastEnd, segs :: LineSegment list). length t - lastEnd))"
    by simp
next
  fix t :: jstring and baseOffset :: int and baseStyle :: SegmentStyle and lastEnd :: nat
    and segs :: "LineSegment list" and m index rest kind rest' content len
  assume "findMatch (drop lastEnd t) lastEnd = Some m" "(index, rest) = m"
    "(kind, rest') = rest" "(content, len) = rest'"
  then have "findMatch (drop lastEnd t) lastEnd = Some (index, kind, content, len)"
    by simp
  from findMatch_index [OF this]
  show "((t, baseOffset, baseStyle, index + len, segs
           @ (if lastEnd < index
              then [plainSegment (slice t (int lastEnd) (int index))
                      (baseOffset + int lastEnd) baseStyle]
              else [])
           @ [spanSegment kind content (baseOffset + int index) baseStyle]),
          t, baseOffset, baseStyle, lastEnd, segs)
        \<in> measure (\<lambda>(t, baseOffset, baseStyle, lastEnd, segs). length t - lastEnd)"
    by auto
qed

declare parseInlineLoop.simps [simp del]

definition parseInline :: "jstring \<Rightarrow> int \<Rightarrow> SegmentStyle \<Rightarrow> LineSegment list" where
  "parseInline text baseOffset baseStyle =
     (case parseInlineLoop text baseOffset baseStyle 0 [] of
        (lastEnd, matched) \<Rightarrow>
          (let segs = matched
                 @ (if lastEnd < length text
                    then [plainSegment (sliceFrom text (int lastEnd))
                            (baseOffset + int lastEnd) baseStyle]
                    else [])
           in if length segs = 0 then [plainSegment text baseOffset baseStyle] else segs))"

section \<open>Block parser: parseBlocks\<close>

datatype BlockType = Heading | Paragraph | CodeBlock | ListBlock | Blockquote | Hr | Blank

text \<open>\<open>Block\<close>; \<open>btype\<close> is the field \<open>type\<close>. The field \<open>items\<close> is never written or read.\<close>

record Block = Located +
  btype :: BlockType
  source :: jstring
  level :: "int option"
  ordered :: "bool option"

text \<open>
  \<^verbatim>\<open>line.match(/^(#{1,4})\s+(.*)$/)\<close>: one to four \<open>#\<close>, then white space, then characters
  other than line terminators up to the end. The result is \<open>headingMatch[1].length\<close>.
\<close>

definition headingMatch :: "jstring \<Rightarrow> int option" where
  "headingMatch line =
     (let hashes = takeWhile (\<lambda>c. c = 35) line;
          rest = drop (length hashes) line;
          spaces = takeWhile isWhitespace rest;
          title = drop (length spaces) rest
      in if 1 \<le> length hashes \<and> length hashes \<le> 4 \<and> 1 \<le> length spaces
            \<and> list_all (\<lambda>c. \<not> isLineTerminator c) title
         then Some (int (length hashes)) else None)"

text \<open>The character class \<open>[-*_]\<close>, and \<open>[-*_]{3,}\<close> at the start of a line.\<close>

definition isRuleMark :: "jchar \<Rightarrow> bool" where
  "isRuleMark c \<longleftrightarrow> c = 45 \<or> c = 42 \<or> c = 95"

definition startsWithRule :: "jstring \<Rightarrow> bool" where
  "startsWithRule line \<longleftrightarrow> 3 \<le> length (takeWhile isRuleMark line)"

text \<open>\<^verbatim>\<open>/^[-*_]{3,}\s*$/.test(line)\<close>\<close>

definition isHorizontalRule :: "jstring \<Rightarrow> bool" where
  "isHorizontalRule line \<longleftrightarrow>
     startsWithRule line
     \<and> list_all isWhitespace (drop (length (takeWhile isRuleMark line)) line)"

text \<open>\<^verbatim>\<open>/^[-*+]\s/\<close>, \<^verbatim>\<open>/^-\s/\<close>, \<^verbatim>\<open>/^\d+\.\s/\<close>, \<^verbatim>\<open>/^\s+/\<close> and \<^verbatim>\<open>/^#{1,4}\s/\<close>.\<close>

definition startsUnordered :: "jstring \<Rightarrow> bool" where
  "startsUnordered line \<longleftrightarrow>
     (case line of
        c # w # _ \<Rightarrow> (c = 45 \<or> c = 42 \<or> c = 43) \<and> isWhitespace w
      | _ \<Rightarrow> False)"

definition startsDash :: "jstring \<Rightarrow> bool" where
  "startsDash line \<longleftrightarrow>
     (case line of
        c # w # _ \<Rightarrow> c = 45 \<and> isWhitespace w
      | _ \<Rightarrow> False)"

definition startsOrdered :: "jstring \<Rightarrow> bool" where
  "startsOrdered line \<longleftrightarrow>
     (let digits = takeWhile isDigit line
      in 1 \<le> length digits \<and>
         (case drop (length digits) line of
            c # w # _ \<Rightarrow> c = 46 \<and> isWhitespace w
          | _ \<Rightarrow> False))"

definition startsSpace :: "jstring \<Rightarrow> bool" where
  "startsSpace line \<longleftrightarrow>
     (case line of
        c # _ \<Rightarrow> isWhitespace c
      | _ \<Rightarrow> False)"

definition startsHeading :: "jstring \<Rightarrow> bool" where
  "startsHeading line \<longleftrightarrow>
     (let hashes = takeWhile (\<lambda>c. c = 35) line
      in 1 \<le> length hashes \<and> length hashes \<le> 4 \<and>
         (case drop (length hashes) line of
            w # _ \<Rightarrow> isWhitespace w
          | _ \<Rightarrow> False))"

text \<open>The three backquotes of a code fence.\<close>

definition fence :: jstring where
  "fence = [96, 96, 96]"

text \<open>
  The conditions of the inner \<open>while\<close> loops, on the line \<open>lines[i]\<close>. In a block quote:
  \<^verbatim>\<open>startsWith(">") || (trim() !== "" && !match(/^(#{1,4}|[-*_]{3,}|```|-\s|\d+\.\s)/))\<close>;
  in a paragraph:
  \<^verbatim>\<open>trim() !== "" && !match(/^(#{1,4}\s|[-*_]{3,}|```|>|[-*+]\s|\d+\.\s)/)\<close>.
\<close>

definition continuesCode :: "jstring \<Rightarrow> bool" where
  "continuesCode l \<longleftrightarrow> \<not> startsWith l fence"

definition continuesQuote :: "jstring \<Rightarrow> bool" where
  "continuesQuote l \<longleftrightarrow>
     startsWith l [62] \<or>
     (trim l \<noteq> [] \<and>
      \<not> (startsWith l [35] \<or> startsWithRule l \<or> startsWith l fence \<or> startsDash l
         \<or> startsOrdered l))"

definition continuesUnordered :: "jstring \<Rightarrow> bool" where
  "continuesUnordered l \<longleftrightarrow> startsUnordered l \<or> startsSpace l"

definition continuesOrdered :: "jstring \<Rightarrow> bool" where
  "continuesOrdered l \<longleftrightarrow> startsOrdered l \<or> startsSpace l"

definition continuesParagraph :: "jstring \<Rightarrow> bool" where
  "continuesParagraph l \<longleftrightarrow>
     trim l \<noteq> [] \<and>
     \<not> (startsHeading l \<or> startsWithRule l \<or> startsWith l fence \<or> startsWith l [62]
        \<or> startsUnordered l \<or> startsOrdered l)"

text \<open>
  What the counters \<open>codeOffset\<close>, \<open>quoteOffset\<close>, \<open>listOffset\<close> and \<open>paraOffset\<close> add up: the
  length of each consumed line and 1 for its newline.
\<close>

definition linesLength :: "jstring list \<Rightarrow> int" where
  "linesLength ls = sum_list (map (\<lambda>l. int (length l) + 1) ls)"

text \<open>A block of one line, and a block of the lines \<open>ls\<close>.\<close>

definition mkBlock :: "BlockType \<Rightarrow> jstring list \<Rightarrow> int \<Rightarrow> int option \<Rightarrow> bool option \<Rightarrow> Block" where
  "mkBlock ty ls lineStart lvl ord =
     \<lparr> sourceOffset = lineStart, btype = ty, source = joinLines ls, level = lvl,
       ordered = ord \<rparr>"

text \<open>
  The number of lines after the opening fence that a code block takes: the lines up to the
  closing fence, and the closing fence when there is one.
\<close>

definition codeCount :: "jstring list \<Rightarrow> nat" where
  "codeCount rest =
     (let n = length (takeWhile continuesCode rest)
      in if n < length rest then n + 1 else n)"

text \<open>
  The outer \<open>while\<close> loop of \<open>parseBlocks\<close>. The index \<open>i\<close> only moves forward, so the state
  is the list of the lines from \<open>lines[i]\<close> on, and \<open>offset\<close>. Each branch consumes the line
  \<open>line\<close> and the first \<open>n\<close> lines of \<open>rest\<close>.
\<close>

function parseBlocksLoop :: "jstring list \<Rightarrow> int \<Rightarrow> Block list" where
  "parseBlocksLoop [] offset = []"
| "parseBlocksLoop (line # rest) offset =
     (let lineStart = offset in
      if trim line = [] then
        mkBlock Blank [line] lineStart None None
        # parseBlocksLoop rest (offset + int (length line) + 1)
      else if headingMatch line \<noteq> None then
        mkBlock Heading [line] lineStart (headingMatch line) None
        # parseBlocksLoop rest (offset + int (length line) + 1)
      else if isHorizontalRule line then
        mkBlock Hr [line] lineStart None None
        # parseBlocksLoop rest (offset + int (length line) + 1)
      else if startsWith line fence then
        (let n = codeCount rest; codeLines = line # take n rest
         in mkBlock CodeBlock codeLines lineStart None None
            # parseBlocksLoop (drop n rest) (lineStart + linesLength codeLines))
      else if startsWith line [62] then
        (let n = length (takeWhile continuesQuote rest); quoteLines = line # take n rest
         in mkBlock Blockquote quoteLines lineStart None None
            # parseBlocksLoop (drop n rest) (lineStart + linesLength quoteLines))
      else if startsUnordered line then
        (let n = length (takeWhile continuesUnordered rest); listLines = line # take n rest
         in mkBlock ListBlock listLines lineStart None (Some False)
            # parseBlocksLoop (drop n rest) (lineStart + linesLength listLines))
      else if startsOrdered line then
        (let n = length (takeWhile continuesOrdered rest); listLines = line # take n rest
         in mkBlock ListBlock listLines lineStart None (Some True)
            # parseBlocksLoop (drop n rest) (lineStart + linesLength listLines))
      else
        (let n = length (takeWhile continuesParagraph rest); paraLines = line # take n rest
         in mkBlock Paragraph paraLines lineStart None None
            # parseBlocksLoop (drop n rest) (lineStart + linesLength paraLines)))"
  by pat_completeness auto
termination
  by (relation "measure (\<lambda>(ls, offset). length ls)") auto

declare parseBlocksLoop.simps [simp del]

definition parseBlocks :: "jstring \<Rightarrow> Block list" where
  "parseBlocks content = parseBlocksLoop (splitLines content) 0"

text \<open>
  The blocks follow one another in the source: the first starts at \<open>offset\<close>, and each next
  one starts one character (the newline) after the end of the source text of the one
  before.
\<close>

fun contiguous :: "int \<Rightarrow> Block list \<Rightarrow> bool" where
  "contiguous offset [] = True"
| "contiguous offset (b # bs) =
     (sourceOffset b = offset \<and> contiguous (offset + int (length (source b)) + 1) bs)"

section \<open>Renderer: renderBlocks\<close>

text \<open>
  What a call can do besides returning: throw (\<open>Inl\<close>), or never return (\<open>None\<close>, from the
  loop of \<open>wordWrap\<close>).
\<close>

datatype error = RangeError | TypeError

text \<open>\<^verbatim>\<open>for (const wl of wrapped) { wl.lineNumber = lineNumber++; }\<close>\<close>

fun renumber :: "RenderedLine list \<Rightarrow> int \<Rightarrow> RenderedLine list" where
  "renumber [] lineNo = []"
| "renumber (wl # wls) lineNo = wl\<lparr> lineNumber := lineNo \<rparr> # renumber wls (lineNo + 1)"

text \<open>
  \<^verbatim>\<open>replace(/^#+\s+/, "")\<close>, \<^verbatim>\<open>replace(/^>\s?/, "")\<close>, \<^verbatim>\<open>replace(/^[-*+]\s+/, "")\<close> and
  \<^verbatim>\<open>replace(/^\d+\.\s+/, "")\<close>: the string without the matched prefix, or the string itself
  when the pattern does not match.
\<close>

definition stripHeadingMarker :: "jstring \<Rightarrow> jstring" where
  "stripHeadingMarker s =
     (let hashes = takeWhile (\<lambda>c. c = 35) s;
          rest = drop (length hashes) s
      in if 1 \<le> length hashes \<and> 1 \<le> length (takeWhile isWhitespace rest)
         then dropWhile isWhitespace rest else s)"

definition stripQuoteMarker :: "jstring \<Rightarrow> jstring" where
  "stripQuoteMarker s =
     (case s of
        [] \<Rightarrow> s
      | c # rest \<Rightarrow>
          if c = 62
          then (case rest of
                  [] \<Rightarrow> rest
                | w # rest' \<Rightarrow> if isWhitespace w then rest' else rest)
          else s)"

definition stripUnorderedMarker :: "jstring \<Rightarrow> jstring" where
  "stripUnorderedMarker s =
     (case s of
        [] \<Rightarrow> s
      | c # rest \<Rightarrow>
          if (c = 45 \<or> c = 42 \<or> c = 43) \<and> 1 \<le> length (takeWhile isWhitespace rest)
          then dropWhile isWhitespace rest else s)"

definition stripOrderedMarker :: "jstring \<Rightarrow> jstring" where
  "stripOrderedMarker s =
     (let digits = takeWhile isDigit s
      in case drop (length digits) s of
           [] \<Rightarrow> s
         | c # rest \<Rightarrow>
             if 1 \<le> length digits \<and> c = 46 \<and> 1 \<le> length (takeWhile isWhitespace rest)
             then dropWhile isWhitespace rest else s)"

text \<open>\<open>source.split("\n").join(" ")\<close>\<close>

fun joinSpaces :: "jstring list \<Rightarrow> jstring" where
  "joinSpaces [] = []"
| "joinSpaces [l] = l"
| "joinSpaces (l # m # ls) = l @ 32 # joinSpaces (m # ls)"

text \<open>The decimal digits of the item number in the template \<^verbatim>\<open>`${itemNum++}. `\<close>.\<close>

fun decimal :: "nat \<Rightarrow> jstring" where
  "decimal n = (if n < 10 then [48 + n] else decimal (n div 10) @ [48 + n mod 10])"

declare decimal.simps [simp del]

definition blankLine :: "Block \<Rightarrow> int \<Rightarrow> RenderedLine" where
  "blankLine block lineNo =
     \<lparr> sourceOffset = sourceOffset block, sourceLength = int (length (source block)),
       lineNumber = lineNo,
       segments = [\<lparr> sourceOffset = sourceOffset block,
                     sourceLength = int (length (source block)), stext = [],
                     style = emptyStyle \<rparr>],
       indent = 0, isBlank = True \<rparr>"

text \<open>
  A heading. \<open>block.level || 1\<close> and \<^verbatim>\<open>MARKDOWN_STYLES[`h${level}`] || MARKDOWN_STYLES.h1\<close> fall
  back on level 1 and on the style \<open>h1\<close>.
\<close>

definition renderHeading :: "Block \<Rightarrow> int \<Rightarrow> int \<Rightarrow> (RenderedLine list \<times> int) option" where
  "renderHeading block terminalWidth lineNo =
     (let lvl = (case level block of None \<Rightarrow> 1 | Some l \<Rightarrow> if l = 0 then 1 else l);
          prefix = (if lvl = 1 then str ''# '' else if lvl = 2 then str ''## ''
                    else if lvl = 3 then str ''### '' else str ''#### '');
          title = stripHeadingMarker (source block);
          hstyle = (if lvl = 2 then MARKDOWN_STYLES_h2 else if lvl = 3 then MARKDOWN_STYLES_h3
                    else if lvl = 4 then MARKDOWN_STYLES_h4 else MARKDOWN_STYLES_h1);
          headingSegments =
            \<lparr> sourceOffset = sourceOffset block, sourceLength = int (length prefix),
              stext = prefix, style = hstyle\<lparr> dimColor := Some True \<rparr> \<rparr>
            # parseInline title (sourceOffset block + int (length prefix)) hstyle
      in case wordWrapSegments headingSegments terminalWidth of
           None \<Rightarrow> None
         | Some wrappedHeading \<Rightarrow>
             Some (renumber wrappedHeading lineNo, lineNo + int (length wrappedHeading)))"

text \<open>
  A horizontal rule. \<open>"\<dots>".repeat(count)\<close> throws a \<open>RangeError\<close> on a negative count, which
  is the case at a terminal width below 4.
\<close>

definition renderHr :: "Block \<Rightarrow> int \<Rightarrow> int \<Rightarrow> error + RenderedLine list \<times> int" where
  "renderHr block terminalWidth lineNo =
     (let count = min (terminalWidth - 4) 60
      in if count < 0 then Inl RangeError
         else Inr ([\<lparr> sourceOffset = sourceOffset block,
                       sourceLength = int (length (source block)), lineNumber = lineNo,
                       segments = [\<lparr> sourceOffset = sourceOffset block,
                                     sourceLength = int (length (source block)),
                                     stext = replicate (nat count) 9472,
                                     style = emptyStyle\<lparr> color := Some ''gray'',
                                               dimColor := Some True \<rparr> \<rparr>],
                       indent = 0, isBlank = False \<rparr>], lineNo + 1))"

text \<open>The loops over the lines of a code block, a block quote and a list.\<close>

fun renderCodeLines :: "jstring list \<Rightarrow> int \<Rightarrow> int \<Rightarrow> RenderedLine list \<times> int" where
  "renderCodeLines [] offset lineNo = ([], lineNo)"
| "renderCodeLines (codeLine # rest) offset lineNo =
     (if startsWith codeLine fence
      then renderCodeLines rest (offset + int (length codeLine) + 1) (lineNo + 1)
      else (case renderCodeLines rest (offset + int (length codeLine) + 1) (lineNo + 1) of
              (ls, n) \<Rightarrow>
                (\<lparr> sourceOffset = offset, sourceLength = int (length codeLine),
                   lineNumber = lineNo,
                   segments = [\<lparr> sourceOffset = offset,
                                 sourceLength = int (length codeLine), stext = codeLine,
                                 style = MARKDOWN_STYLES_codeBlock \<rparr>],
                   indent = 0, isBlank = False \<rparr> # ls, n)))"

fun renderQuoteLines ::
  "jstring list \<Rightarrow> int \<Rightarrow> int \<Rightarrow> int \<Rightarrow> (RenderedLine list \<times> int) option" where
  "renderQuoteLines [] terminalWidth offset lineNo = Some ([], lineNo)"
| "renderQuoteLines (quoteLine # rest) terminalWidth offset lineNo =
     (let quoted = stripQuoteMarker quoteLine;
          prefixLen = int (length quoteLine) - int (length quoted);
          quoteSegments =
            \<lparr> sourceOffset = offset, sourceLength = prefixLen, stext = [9474, 32],
              style = emptyStyle\<lparr> color := Some ''gray'' \<rparr> \<rparr>
            # parseInline quoted (offset + prefixLen) MARKDOWN_STYLES_blockquote
      in case wordWrapSegments quoteSegments (terminalWidth - 2) of
           None \<Rightarrow> None
         | Some wrappedQuote \<Rightarrow>
             (case renderQuoteLines rest terminalWidth (offset + int (length quoteLine) + 1)
                     (lineNo + int (length wrappedQuote)) of
                None \<Rightarrow> None
              | Some (ls, n) \<Rightarrow>
                  Some (map (\<lambda>wl. wl\<lparr> sourceOffset := offset,
                                       sourceLength := int (length quoteLine) \<rparr>)
                          (renumber wrappedQuote lineNo) @ ls, n)))"

fun renderListLines ::
  "jstring list \<Rightarrow> bool \<Rightarrow> int \<Rightarrow> int \<Rightarrow> nat \<Rightarrow> int \<Rightarrow> (RenderedLine list \<times> int) option" where
  "renderListLines [] isOrdered terminalWidth offset itemNum lineNo = Some ([], lineNo)"
| "renderListLines (listLine # rest) isOrdered terminalWidth offset itemNum lineNo =
     (if trim listLine = []
      then renderListLines rest isOrdered terminalWidth (offset + int (length listLine) + 1)
             itemNum (lineNo + 1)
      else
        (let bullet = (if isOrdered then decimal itemNum @ [46, 32] else [8226, 32]);
             itemNum' = (if isOrdered then itemNum + 1 else itemNum);
             item = stripOrderedMarker (stripUnorderedMarker listLine);
             prefixLength = int (length listLine) - int (length item);
             listSegments =
               \<lparr> sourceOffset = offset, sourceLength = prefixLength, stext = bullet,
                 style = emptyStyle\<lparr> color := Some ''cyan'' \<rparr> \<rparr>
               # parseInline item (offset + prefixLength) emptyStyle
         in case wordWrapSegments listSegments (terminalWidth - 2) of
              None \<Rightarrow> None
            | Some wrappedList \<Rightarrow>
                (case renderListLines rest isOrdered terminalWidth
                        (offset + int (length listLine) + 1) itemNum'
                        (lineNo + int (length wrappedList)) of
                   None \<Rightarrow> None
                 | Some (ls, n) \<Rightarrow>
                     Some (map (\<lambda>wl. wl\<lparr> sourceOffset := offset,
                                          sourceLength := int (length listLine),
                                          indent := 0 \<rparr>)
                             (renumber wrappedList lineNo) @ ls, n))))"

definition renderParagraph :: "Block \<Rightarrow> int \<Rightarrow> int \<Rightarrow> (RenderedLine list \<times> int) option" where
  "renderParagraph block terminalWidth lineNo =
     (let fullPara = joinSpaces (splitLines (source block));
          paraSegments = parseInline fullPara (sourceOffset block) emptyStyle
      in case wordWrapSegments paraSegments terminalWidth of
           None \<Rightarrow> None
         | Some wrappedPara \<Rightarrow>
             Some (renumber wrappedPara lineNo, lineNo + int (length wrappedPara)))"

text \<open>
  One pass of the loop of \<open>renderBlocks\<close>: the lines the block adds and the next line
  number.
\<close>

definition renderBlock ::
  "Block \<Rightarrow> int \<Rightarrow> int \<Rightarrow> (error + RenderedLine list \<times> int) option" where
  "renderBlock block terminalWidth lineNo =
     (case btype block of
        Blank \<Rightarrow> Some (Inr ([blankLine block lineNo], lineNo + 1))
      | Heading \<Rightarrow> map_option Inr (renderHeading block terminalWidth lineNo)
      | Hr \<Rightarrow> Some (renderHr block terminalWidth lineNo)
      | CodeBlock \<Rightarrow>
          Some (Inr (renderCodeLines (splitLines (source block)) (sourceOffset block) lineNo))
      | Blockquote \<Rightarrow>
          map_option Inr
            (renderQuoteLines (splitLines (source block)) terminalWidth (sourceOffset block)
               lineNo)
      | ListBlock \<Rightarrow>
          map_option Inr
            (renderListLines (splitLines (source block)) (ordered block = Some True)
               terminalWidth (sourceOffset block) 1 lineNo)
      | Paragraph \<Rightarrow> map_option Inr (renderParagraph block terminalWidth lineNo))"

fun renderBlocksLoop ::
  "Block list \<Rightarrow> int \<Rightarrow> int \<Rightarrow> (error + RenderedLine list) option" where
  "renderBlocksLoop [] terminalWidth lineNo = Some (Inr [])"
| "renderBlocksLoop (block # rest) terminalWidth lineNo =
     (case renderBlock block terminalWidth lineNo of
        None \<Rightarrow> None
      | Some (Inl e) \<Rightarrow> Some (Inl e)
      | Some (Inr (ls, n)) \<Rightarrow>
          (case renderBlocksLoop rest terminalWidth n of
             None \<Rightarrow> None
           | Some (Inl e) \<Rightarrow> Some (Inl e)
           | Some (Inr others) \<Rightarrow> Some (Inr (ls @ others))))"

definition renderBlocks :: "Block list \<Rightarrow> int \<Rightarrow> (error + RenderedLine list) option" where
  "renderBlocks blocks terminalWidth = renderBlocksLoop blocks terminalWidth 1"

subsection \<open>The intra-segment mapping of a rendered document\<close>

text \<open>
  What the renderer shows is the source with two kinds of change. A paragraph is joined:
  \<open>spaced\<close> is the source with a space for each newline, which is what
  \<open>split("\n").join(" ")\<close> makes of the source text of a paragraph. And the renderer inserts
  segments of its own before the content: the marker of a heading, the glyphs of a rule,
  the bar of a block quote and the bullet or number of a list item. \<open>decorative\<close>
  recognises them by the styles that \<open>renderBlocks\<close> gives them and that it gives to
  nothing else.
\<close>

definition spaced :: "jstring \<Rightarrow> jstring" where
  "spaced s = map (\<lambda>c. if c = 10 then 32 else c) s"

definition decorative :: "LineSegment \<Rightarrow> bool" where
  "decorative segment \<longleftrightarrow>
     style segment = MARKDOWN_STYLES_h1\<lparr> dimColor := Some True \<rparr>
     \<or> style segment = MARKDOWN_STYLES_h2\<lparr> dimColor := Some True \<rparr>
     \<or> style segment = MARKDOWN_STYLES_h3\<lparr> dimColor := Some True \<rparr>
     \<or> style segment = MARKDOWN_STYLES_h4\<lparr> dimColor := Some True \<rparr>
     \<or> style segment = emptyStyle\<lparr> color := Some ''gray'', dimColor := Some True \<rparr>
     \<or> style segment = emptyStyle\<lparr> color := Some ''gray'' \<rparr>
     \<or> style segment = emptyStyle\<lparr> color := Some ''cyan'' \<rparr>"

text \<open>
  The number of white-space characters between the hashes of a heading and its title. The
  renderer shows one space there, and takes the title to stand that far into the source.
\<close>

definition markerSpaces :: "jstring \<Rightarrow> nat" where
  "markerSpaces s = length (takeWhile isWhitespace (dropWhile (\<lambda>c. c = 35) s))"

text \<open>
  What holds of a segment of a line rendered from \<open>block\<close>. The text of a blank line is
  empty. A code line is in the source as it is shown. A paragraph is in the source as it is
  shown but for the newlines that it shows as spaces, and exactly as it is shown when its
  source is a single line. The segments of a list item, of a quoted line and of a heading
  are decorative or in the source as they are shown; for a heading this is stated when one
  white-space character follows the hashes.
\<close>

definition mapped :: "jstring \<Rightarrow> Block \<Rightarrow> LineSegment \<Rightarrow> bool" where
  "mapped doc block segment \<longleftrightarrow>
     (case btype block of
        Blank \<Rightarrow> intraSegment doc segment
      | CodeBlock \<Rightarrow> intraSegment doc segment
      | Paragraph \<Rightarrow>
          intraSegment (spaced doc) segment
          \<and> (10 \<in> set (source block) \<or> intraSegment doc segment)
      | Hr \<Rightarrow> decorative segment
      | ListBlock \<Rightarrow> decorative segment \<or> intraSegment doc segment
      | Blockquote \<Rightarrow> decorative segment \<or> intraSegment doc segment
      | Heading \<Rightarrow>
          decorative segment \<or> markerSpaces (source block) \<noteq> 1 \<or> intraSegment doc segment)"

text \<open>The base styles that \<open>renderBlocks\<close> passes to \<open>parseInline\<close>.\<close>

definition contentStyle :: "SegmentStyle \<Rightarrow> bool" where
  "contentStyle baseStyle \<longleftrightarrow>
     baseStyle = emptyStyle \<or> baseStyle = MARKDOWN_STYLES_h1 \<or> baseStyle = MARKDOWN_STYLES_h2
     \<or> baseStyle = MARKDOWN_STYLES_h3 \<or> baseStyle = MARKDOWN_STYLES_h4
     \<or> baseStyle = MARKDOWN_STYLES_blockquote"

section \<open>Overlays: applyDiffs and applySelection\<close>

datatype DiffType = Add | Delete

text \<open>
  \<open>DocumentDiff\<close>, \<open>DocumentSelection\<close> and \<open>SelectionState\<close> all have the fields \<open>startOffset\<close>
  and \<open>endOffset\<close>; in \<open>SelectionState\<close> they may be \<open>null\<close>. \<open>dtype\<close> is the field \<open>type\<close>.
\<close>

record 'a OffsetRange =
  startOffset :: 'a
  endOffset :: 'a

record DocumentDiff = "int OffsetRange" +
  dtype :: DiffType

fun DIFF_STYLES :: "DiffType \<Rightarrow> SegmentStyle" where
  "DIFF_STYLES Add = emptyStyle\<lparr> backgroundColor := Some ''green'' \<rparr>"
| "DIFF_STYLES Delete =
     emptyStyle\<lparr> strikethrough := Some True, backgroundColor := Some ''red'' \<rparr>"

definition SELECTION_STYLE :: SegmentStyle where
  "SELECTION_STYLE = emptyStyle\<lparr> backgroundColor := Some ''blue'' \<rparr>"

text \<open>
  The piece \<open>[lo, hi)\<close> of a segment's text, as every \<open>result.push\<close> of the two functions
  builds it: \<open>{ ...segment, text: segment.text.slice(lo, hi), sourceOffset:
  segment.sourceOffset + lo, sourceLength: hi - lo }\<close>.
\<close>

definition piece :: "LineSegment \<Rightarrow> int \<Rightarrow> int \<Rightarrow> LineSegment" where
  "piece segment lo hi =
     segment\<lparr> stext := slice (stext segment) lo hi,
              sourceOffset := sourceOffset segment + lo, sourceLength := hi - lo \<rparr>"

text \<open>
  The loop over \<open>sortedDiffs\<close> for one segment, with \<open>textPos\<close> as its state, and the push of
  the text after all diffs once the loop is over.
\<close>

fun splitAtDiffs :: "LineSegment \<Rightarrow> DocumentDiff list \<Rightarrow> int \<Rightarrow> LineSegment list" where
  "splitAtDiffs segment [] textPos =
     (if textPos < int (length (stext segment))
      then [piece segment textPos (int (length (stext segment)))] else [])"
| "splitAtDiffs segment (diff # rest) textPos =
     (let segStart = sourceOffset segment;
          diffStartInSeg = max 0 (startOffset diff - segStart);
          diffEndInSeg = min (int (length (stext segment))) (endOffset diff - segStart)
      in (if diffStartInSeg > textPos then [piece segment textPos diffStartInSeg] else [])
         @ (if diffEndInSeg > diffStartInSeg
            then [(piece segment diffStartInSeg diffEndInSeg)
                    \<lparr> style := spread (style segment) (DIFF_STYLES (dtype diff)) \<rparr>]
            else [])
         @ splitAtDiffs segment rest diffEndInSeg)"

definition applyDiffsSegment :: "LineSegment \<Rightarrow> DocumentDiff list \<Rightarrow> LineSegment list" where
  "applyDiffsSegment segment diffs =
     (let segStart = sourceOffset segment;
          segEnd = sourceOffset segment + sourceLength segment;
          overlapping = filter (\<lambda>d. startOffset d < segEnd \<and> endOffset d > segStart) diffs
      in if length overlapping = 0 then [segment]
         else splitAtDiffs segment (sort_key startOffset overlapping) 0)"

definition applyDiffs :: "LineSegment list \<Rightarrow> DocumentDiff list \<Rightarrow> LineSegment list" where
  "applyDiffs segs diffs =
     (if length diffs = 0 then segs
      else concat (map (\<lambda>segment. applyDiffsSegment segment diffs) segs))"

definition applySelectionSegment :: "LineSegment \<Rightarrow> int \<Rightarrow> int \<Rightarrow> LineSegment list" where
  "applySelectionSegment segment start end =
     (let segStart = sourceOffset segment;
          segEnd = sourceOffset segment + sourceLength segment;
          selStartInSeg = max 0 (start - segStart);
          selEndInSeg = min (int (length (stext segment))) (end - segStart)
      in if end \<le> segStart \<or> start \<ge> segEnd then [segment]
         else if selEndInSeg \<le> selStartInSeg then [segment]
         else (if selStartInSeg > 0 then [piece segment 0 selStartInSeg] else [])
            @ (if length (slice (stext segment) selStartInSeg selEndInSeg) > 0
               then [(piece segment selStartInSeg selEndInSeg)
                       \<lparr> style := spread (style segment) SELECTION_STYLE \<rparr>]
               else [])
            @ (if selEndInSeg < int (length (stext segment))
               then [piece segment selEndInSeg (int (length (stext segment)))]
               else []))"

definition applySelection ::
  "LineSegment list \<Rightarrow> int option \<Rightarrow> int option \<Rightarrow> LineSegment list" where
  "applySelection segs selectionStart selectionEnd =
     (case (selectionStart, selectionEnd) of
        (Some s, Some e) \<Rightarrow>
          if s = e then segs
          else concat (map (\<lambda>segment. applySelectionSegment segment (min s e) (max s e)) segs)
      | _ \<Rightarrow> segs)"

section \<open>Pointer resolution: terminalToOffset\<close>

record PositionMapping = Located +
  terminalRow :: int
  terminalCol :: int

text \<open>
  \<open>xs.reduce(f)\<close> without an initial value starts from the first element, and throws a
  \<open>TypeError\<close> on an empty array. \<open>nearer key target\<close> is the callback of both calls:
  the current element replaces the previous one when it is strictly nearer to the target.
\<close>

definition nearer :: "('a \<Rightarrow> int) \<Rightarrow> int \<Rightarrow> 'a \<Rightarrow> 'a \<Rightarrow> 'a" where
  "nearer key target prev cur =
     (if \<bar>key cur - target\<bar> < \<bar>key prev - target\<bar> then cur else prev)"

definition reduce :: "('a \<Rightarrow> 'a \<Rightarrow> 'a) \<Rightarrow> 'a list \<Rightarrow> error + 'a" where
  "reduce f xs = (case xs of [] \<Rightarrow> Inl TypeError | x # rest \<Rightarrow> Inr (foldl f x rest))"

text \<open>
  \<open>Math.min(...xs)\<close> and \<open>Math.max(...xs)\<close>, called on the offsets of a row that has entries.
\<close>

definition minOf :: "int list \<Rightarrow> int" where
  "minOf xs = (case xs of [] \<Rightarrow> 0 | x # rest \<Rightarrow> foldl min x rest)"

definition maxOf :: "int list \<Rightarrow> int" where
  "maxOf xs = (case xs of [] \<Rightarrow> 0 | x # rest \<Rightarrow> foldl max x rest)"

text \<open>
  \<open>[...new Set(rows)].sort((a, b) => a - b)\<close>: the distinct rows in increasing order.
\<close>

definition terminalToOffset :: "int \<Rightarrow> int \<Rightarrow> PositionMapping list \<Rightarrow> error + int option" where
  "terminalToOffset x y positionMap =
     (case find (\<lambda>p. terminalRow p = y \<and> terminalCol p = x) positionMap of
        Some exact \<Rightarrow> Inr (Some (sourceOffset exact))
      | None \<Rightarrow>
          (let rowEntries = filter (\<lambda>p. terminalRow p = y) positionMap
           in if length rowEntries = 0 then
                (let rows = sort (remdups (map terminalRow positionMap))
                 in case reduce (nearer id y) rows of
                      Inl e \<Rightarrow> Inl e
                    | Inr closestRow \<Rightarrow>
                        (let closestRowEntries =
                               filter (\<lambda>p. terminalRow p = closestRow) positionMap
                         in if length closestRowEntries = 0 then Inr None
                            else if y < closestRow
                            then Inr (Some (minOf (map sourceOffset closestRowEntries)))
                            else Inr (Some (maxOf (map sourceOffset closestRowEntries)))))
              else (case reduce (nearer terminalCol x) rowEntries of
                      Inl e \<Rightarrow> Inl e
                    | Inr closest \<Rightarrow> Inr (Some (sourceOffset closest)))))"

section \<open>Selection controller: useTextSelection\<close>

record SelectionState = "int option OffsetRange" +
  isSelecting :: bool
  anchorOffset :: "int option"
  focusOffset :: "int option"

record DocumentSelection = "int OffsetRange" +
  selectedText :: jstring
  startLine :: int
  endLine :: int
  startColumn :: int
  endColumn :: int

text \<open>
  The options of the hook that the handlers read, the coordinates of a mouse event, and the
  state the handlers change: the selection, \<open>mouseDownRef.current\<close>, and the arguments of
  the calls of \<open>onSelectionChange\<close> so far, oldest first.
\<close>

record Options =
  enabled :: bool
  positionMap :: "PositionMapping list"
  content :: jstring
  scrollOffset :: int
  startCol :: int

record MouseEvent =
  x :: int
  y :: int

record Controller =
  selection :: SelectionState
  mouseDown :: bool
  notified :: "DocumentSelection option list"

definition initialController :: Controller where
  "initialController =
     \<lparr> selection = \<lparr> startOffset = None, endOffset = None, isSelecting = False,
                     anchorOffset = None, focusOffset = None \<rparr>,
       mouseDown = False, notified = [] \<rparr>"

definition offsetToLineCol :: "int \<Rightarrow> jstring \<Rightarrow> int \<times> int" where
  "offsetToLineCol offset text =
     foldl (\<lambda>(line, column) c. if c = 10 then (line + 1, 1) else (line, column + 1))
       (1, 1) (take (nat offset) text)"

definition getSelectionData :: "jstring \<Rightarrow> SelectionState \<Rightarrow> DocumentSelection option" where
  "getSelectionData text state =
     (case (startOffset state, endOffset state) of
        (Some start, Some end) \<Rightarrow>
          if start = end then None
          else Some \<lparr> startOffset = start, endOffset = end,
                      selectedText = slice text start end,
                      startLine = fst (offsetToLineCol start text),
                      endLine = fst (offsetToLineCol end text),
                      startColumn = snd (offsetToLineCol start text),
                      endColumn = snd (offsetToLineCol end text) \<rparr>
      | _ \<Rightarrow> None)"

definition handleClick :: "Options \<Rightarrow> MouseEvent \<Rightarrow> Controller \<Rightarrow> error + Controller" where
  "handleClick opts event c =
     (if \<not> enabled opts then Inr c
      else case terminalToOffset (x event - startCol opts) (y event + scrollOffset opts)
                  (positionMap opts) of
             Inl e \<Rightarrow> Inl e
           | Inr None \<Rightarrow> Inr c
           | Inr (Some offset) \<Rightarrow>
               Inr (c\<lparr> mouseDown := True,
                        selection := \<lparr> startOffset = Some offset, endOffset = Some offset,
                                       isSelecting = True, anchorOffset = Some offset,
                                       focusOffset = Some offset \<rparr> \<rparr>))"

definition handleMove :: "Options \<Rightarrow> MouseEvent \<Rightarrow> Controller \<Rightarrow> error + Controller" where
  "handleMove opts event c =
     (if \<not> enabled opts \<or> \<not> mouseDown c then Inr c
      else case terminalToOffset (x event - startCol opts) (y event + scrollOffset opts)
                  (positionMap opts) of
             Inl e \<Rightarrow> Inl e
           | Inr None \<Rightarrow> Inr c
           | Inr (Some offset) \<Rightarrow>
               (case anchorOffset (selection c) of
                  None \<Rightarrow> Inr c
                | Some anchor \<Rightarrow>
                    (let newState = (selection c)\<lparr> isSelecting := True,
                                      focusOffset := Some offset,
                                      startOffset := Some (min anchor offset),
                                      endOffset := Some (max anchor offset) \<rparr>
                     in Inr (c\<lparr> selection := newState,
                                 notified := notified c
                                   @ [getSelectionData (content opts) newState] \<rparr>))))"

definition handleRelease :: "Options \<Rightarrow> MouseEvent \<Rightarrow> Controller \<Rightarrow> error + Controller" where
  "handleRelease opts event c =
     (if \<not> enabled opts then Inr c
      else (let newState = (selection c)\<lparr> isSelecting := False \<rparr>;
                data = getSelectionData (content opts) newState
            in Inr (c\<lparr> mouseDown := False, selection := newState,
                        notified := notified c
                          @ (case data of
                               None \<Rightarrow> []
                             | Some d \<Rightarrow>
                                 if startOffset d \<noteq> endOffset d then [data] else []) \<rparr>)))"

text \<open>
  The events \<open>useMouse\<close> delivers, each with the options of the render it arrives in, and a
  run of the controller over a list of them; an exception ends the run.
\<close>

datatype pointerEvent = Press MouseEvent | Move MouseEvent | Release MouseEvent

fun handleEvent :: "Options \<Rightarrow> pointerEvent \<Rightarrow> Controller \<Rightarrow> error + Controller" where
  "handleEvent opts (Press event) c = handleClick opts event c"
| "handleEvent opts (Move event) c = handleMove opts event c"
| "handleEvent opts (Release event) c = handleRelease opts event c"

fun handleEvents :: "(Options \<times> pointerEvent) list \<Rightarrow> Controller \<Rightarrow> error + Controller" where
  "handleEvents [] c = Inr c"
| "handleEvents ((opts, event) # rest) c =
     (case handleEvent opts event c of
        Inl e \<Rightarrow> Inl e
      | Inr c' \<Rightarrow> handleEvents rest c')"

text \<open>
  The offset a pointer event resolves to, as \<open>handleClick\<close> and \<open>handleMove\<close> compute it,
  and the normal form of a selection: when both ends are set, the start is not after the
  end.
\<close>

definition resolve :: "Options \<Rightarrow> MouseEvent \<Rightarrow> error + int option" where
  "resolve opts event =
     terminalToOffset (x event - startCol opts) (y event + scrollOffset opts) (positionMap opts)"

definition normalized :: "SelectionState \<Rightarrow> bool" where
  "normalized state \<longleftrightarrow>
     (case (startOffset state, endOffset state) of
        (Some s, Some e) \<Rightarrow> s \<le> e
      | _ \<Rightarrow> True)"

section \<open>Evaluating the reflow loop\<close>

lemma wordWrapLoop_done:
  "remaining = [] \<Longrightarrow> wordWrapLoop width remaining result = Some result"
  by (subst wordWrapLoop.simps) simp

lemma wordWrapLoop_last:
  "remaining \<noteq> [] \<Longrightarrow> int (length remaining) \<le> width \<Longrightarrow>
   wordWrapLoop width remaining result = Some (result @ [remaining])"
  by (subst wordWrapLoop.simps) simp

lemma wordWrapLoop_step:
  "remaining \<noteq> [] \<Longrightarrow> \<not> int (length remaining) \<le> width \<Longrightarrow>
   wordWrapLoop width remaining result =
     wordWrapLoop width (trimStart (sliceFrom remaining (breakPoint remaining width)))
       (result @ [trimEnd (slice remaining 0 (breakPoint remaining width))])"
  by (subst wordWrapLoop.simps) simp

lemmas string_defs =
  str_def isWhitespace_def isLineTerminator_def isDigit_def trimStart_def trimEnd_def
  trim_def startsWith_def slice_def sliceFrom_def lastIndexOf_def breakPoint_def Let_def

lemmas wordWrap_eval =
  wordWrap_def wordWrapLoop_done wordWrapLoop_last wordWrapLoop_step string_defs

lemmas inline_eval =
  parseInline_def parseInlineLoop.simps matchInline_def classPlus_def plainSegment_def
  spanSegment_def spread_def orElse_def emptyStyle_def MARKDOWN_STYLES_bold_def
  MARKDOWN_STYLES_italic_def MARKDOWN_STYLES_code_def MARKDOWN_STYLES_link_def

section \<open>Facts about the reflow loop\<close>

lemma lastIndexOf_range: "lastIndexOf s c k = - 1 \<or> (0 \<le> lastIndexOf s c k \<and> lastIndexOf s c k \<le> max k 0)"
proof -
  let ?pre = "take (nat (max k 0) + 1) s"
  let ?suf = "takeWhile (\<lambda>x. x \<noteq> c) (rev ?pre)"
  have a: "length ?suf \<le> length ?pre"
    using length_takeWhile_le [of "\<lambda>x. x \<noteq> c" "rev ?pre"] by simp
  have b: "int (length ?pre) \<le> max k 0 + 1" by simp
  show ?thesis
    using a b unfolding lastIndexOf_def Let_def by (auto simp del: length_take)
qed

lemma breakPoint_range:
  assumes "1 \<le> width"
  shows "1 \<le> breakPoint remaining width \<and> breakPoint remaining width \<le> width"
  using assms lastIndexOf_range [of remaining 32 width]
  by (auto simp: breakPoint_def Let_def)

lemma length_trimStart: "length (trimStart s) \<le> length s"
  by (simp add: trimStart_def length_dropWhile_le)

lemma length_trimEnd: "length (trimEnd s) \<le> length s"
  using length_dropWhile_le [of isWhitespace "rev s"] by (simp add: trimEnd_def)

lemma length_slice_prefix: "0 \<le> b \<Longrightarrow> int (length (slice s 0 b)) \<le> b"
  by (simp add: slice_def Let_def)

lemma length_sliceFrom: "0 \<le> a \<Longrightarrow> int (length (sliceFrom s a)) = max 0 (int (length s) - a)"
  by (auto simp: sliceFrom_def slice_def Let_def)

lemma trimStart_fixed: "trimStart s = s \<longleftrightarrow> s = [] \<or> \<not> isWhitespace (hd s)"
proof (cases s)
  case Nil
  then show ?thesis by (simp add: trimStart_def)
next
  case (Cons c cs)
  show ?thesis
  proof (cases "isWhitespace c")
    case True
    have "length (dropWhile isWhitespace cs) \<le> length cs" by (rule length_dropWhile_le)
    then have "dropWhile isWhitespace cs \<noteq> c # cs" by auto
    with True Cons show ?thesis by (simp add: trimStart_def)
  next
    case False
    with Cons show ?thesis by (simp add: trimStart_def)
  qed
qed

lemma trimStart_idem: "trimStart (trimStart s) = trimStart s"
  by (simp add: trimStart_def)

lemma trimEnd_idem: "trimEnd (trimEnd s) = trimEnd s"
  by (simp add: trimEnd_def)

lemma trimEnd_prefix: "s = trimEnd s @ rev (takeWhile isWhitespace (rev s))"
  unfolding trimEnd_def
  by (metis rev_append rev_rev_ident takeWhile_dropWhile_id)

lemma slice_prefix: "0 \<le> b \<Longrightarrow> slice s 0 b = take (nat b) s"
  by (auto simp: slice_def Let_def min_def)

lemma trimStart_line:
  assumes "trimStart remaining = remaining" and "0 \<le> b"
  shows "trimStart (trimEnd (slice remaining 0 b)) = trimEnd (slice remaining 0 b)"
proof (cases "trimEnd (slice remaining 0 b) = []")
  case True
  then show ?thesis by (simp add: trimStart_def)
next
  case False
  let ?t = "take (nat b) remaining"
  from False assms(2) have ne: "trimEnd ?t \<noteq> []" by (simp add: slice_prefix)
  have "hd (trimEnd ?t) = hd ?t"
    using ne trimEnd_prefix [of ?t] by (metis hd_append2)
  moreover have "?t \<noteq> []" using ne by (auto simp: trimEnd_def)
  then have "hd ?t = hd remaining" "remaining \<noteq> []" by auto
  moreover from assms(1) \<open>remaining \<noteq> []\<close> have "\<not> isWhitespace (hd remaining)"
    by (simp add: trimStart_fixed)
  ultimately show ?thesis using assms(2) by (simp add: trimStart_fixed slice_prefix)
qed

lemma wordWrapLoop_lines:
  assumes w: "1 \<le> width"
  shows "\<exists>ls. wordWrapLoop width remaining result = Some (result @ ls)
           \<and> list_all (\<lambda>l. int (length l) \<le> width) ls
           \<and> list_all (\<lambda>l. trimEnd l = l) (butlast ls)
           \<and> list_all (\<lambda>l. trimStart l = l) (tl ls)
           \<and> (trimStart remaining = remaining \<longrightarrow> list_all (\<lambda>l. trimStart l = l) ls)"
proof (induction "length remaining" arbitrary: remaining result rule: less_induct)
  case less
  show ?case
  proof (cases "remaining = []")
    case True
    then show ?thesis by (simp add: wordWrapLoop_done)
  next
    case ne: False
    show ?thesis
    proof (cases "int (length remaining) \<le> width")
      case True
      with ne show ?thesis by (simp add: wordWrapLoop_last)
    next
      case False
      let ?bp = "breakPoint remaining width"
      let ?next = "trimStart (sliceFrom remaining ?bp)"
      let ?line = "trimEnd (slice remaining 0 ?bp)"
      from breakPoint_range [OF w] have bp: "1 \<le> ?bp" "?bp \<le> width" by auto
      have "int (length ?next) \<le> int (length (sliceFrom remaining ?bp))"
        using length_trimStart [of "sliceFrom remaining ?bp"] by simp
      also have "\<dots> < int (length remaining)"
        using bp False by (simp add: length_sliceFrom)
      finally have shorter: "length ?next < length remaining" by simp
      have "int (length ?line) \<le> int (length (slice remaining 0 ?bp))"
        using length_trimEnd [of "slice remaining 0 ?bp"] by simp
      also have "\<dots> \<le> ?bp" using bp by (simp add: length_slice_prefix)
      finally have line: "int (length ?line) \<le> width" using bp by simp
      have fixed: "trimStart ?next = ?next" by (rule trimStart_idem)
      from less [OF shorter, of "result @ [?line]"] fixed
      obtain ls where ls:
        "wordWrapLoop width ?next (result @ [?line]) = Some ((result @ [?line]) @ ls)"
        "list_all (\<lambda>l. int (length l) \<le> width) ls"
        "list_all (\<lambda>l. trimEnd l = l) (butlast ls)"
        "list_all (\<lambda>l. trimStart l = l) ls" by blast
      have "wordWrapLoop width remaining result = Some (result @ (?line # ls))"
        using ne False ls(1) by (simp add: wordWrapLoop_step)
      moreover have "list_all (\<lambda>l. int (length l) \<le> width) (?line # ls)"
        using line ls(2) by simp
      moreover have "list_all (\<lambda>l. trimEnd l = l) (butlast (?line # ls))"
        using ls(3) by (simp add: trimEnd_idem)
      moreover have "list_all (\<lambda>l. trimStart l = l) (tl (?line # ls))"
        using ls(4) by simp
      moreover have "trimStart remaining = remaining \<longrightarrow>
          list_all (\<lambda>l. trimStart l = l) (?line # ls)"
        using ls(4) bp by (simp add: trimStart_line)
      ultimately show ?thesis by blast
    qed
  qed
qed

lemma wordWrap_lines:
  assumes "1 \<le> width"
  shows "\<exists>ls. wordWrap s width = Some ls
           \<and> list_all (\<lambda>l. int (length l) \<le> width) ls
           \<and> list_all (\<lambda>l. trimEnd l = l) (butlast ls)
           \<and> list_all (\<lambda>l. trimStart l = l) (tl ls)"
proof (cases "int (length s) \<le> width")
  case True
  then show ?thesis by (simp add: wordWrap_def)
next
  case False
  from wordWrapLoop_lines [OF assms, of s "[]"] False show ?thesis
    by (auto simp: wordWrap_def)
qed

lemma wordWrapLoop_diverges:
  assumes ne: "remaining \<noteq> []" and nw: "\<not> isWhitespace (hd remaining)"
  shows "wordWrapLoop 0 remaining result = None"
proof (rule ccontr)
  assume "wordWrapLoop 0 remaining result \<noteq> None"
  then obtain r where r: "wordWrapLoop 0 remaining result = Some r" by auto
  have "\<not> (0 = (0::int) \<and> remaining \<noteq> [] \<and> \<not> isWhitespace (hd remaining))"
  proof (rule wordWrapLoop.raw_induct
      [where P = "\<lambda>w rem res r. \<not> (w = 0 \<and> rem \<noteq> [] \<and> \<not> isWhitespace (hd rem))", OF _ r])
    fix f :: "int \<Rightarrow> jstring \<Rightarrow> jstring list \<Rightarrow> jstring list option"
      and width rem res r
    assume ih: "\<And>w rem res r. f w rem res = Some r \<Longrightarrow>
        \<not> (w = 0 \<and> rem \<noteq> [] \<and> \<not> isWhitespace (hd rem))"
      and body: "(if 0 < length rem
        then if int (length rem) \<le> width then Some (res @ [rem])
             else f width (trimStart (sliceFrom rem (breakPoint rem width)))
                   (res @ [trimEnd (slice rem 0 (breakPoint rem width))])
        else Some res) = Some r"
    show "\<not> (width = 0 \<and> rem \<noteq> [] \<and> \<not> isWhitespace (hd rem))"
    proof
      assume a: "width = 0 \<and> rem \<noteq> [] \<and> \<not> isWhitespace (hd rem)"
      then obtain c cs where rem: "rem = c # cs" by (cases rem) auto
      with a have c: "\<not> isWhitespace c" by auto
      then have c32: "c \<noteq> 32" by (auto simp: isWhitespace_def)
      have bp: "breakPoint rem 0 = 0"
        using c32 by (simp add: breakPoint_def lastIndexOf_def rem Let_def)
      have nx: "trimStart (sliceFrom rem 0) = rem"
        using c by (simp add: trimStart_def sliceFrom_def slice_def rem Let_def)
      from body a bp nx rem
      have "f 0 rem (res @ [trimEnd (slice rem 0 0)]) = Some r" by simp
      from ih [OF this] a show False by simp
    qed
  qed
  with ne nw show False by simp
qed

section \<open>Facts about the inline parser\<close>

lemma lazyDotPlus_prefix:
  "lazyDotPlus closing s = Some captured \<Longrightarrow> take (length captured) s = captured"
  by (induction s arbitrary: captured) (auto split: if_splits)

lemma classPlus_prefix:
  "classPlus ch s = Some run \<Longrightarrow> take (length run) s = run"
  by (auto simp: classPlus_def Let_def split: if_splits) (metis takeWhile_eq_take)

lemma matchInline_content:
  assumes "matchInline s = Some (kind, captured, len)"
  shows "startsWith s (openingDelimiter kind)
         \<and> skipOf kind = int (length (openingDelimiter kind))
         \<and> take (length captured) (drop (nat (skipOf kind)) s) = captured"
  using assms
  by (auto simp: matchInline_def Let_def str_def startsWith_def
      split: option.splits if_splits dest: lazyDotPlus_prefix classPlus_prefix)

lemma findMatch_match:
  "findMatch s i = Some (index, kind, captured, len) \<Longrightarrow>
   i \<le> index \<and> matchInline (drop (index - i) s) = Some (kind, captured, len)"
proof (induction s arbitrary: i)
  case Nil
  then show ?case by simp
next
  case (Cons c cs)
  show ?case
  proof (cases "matchInline (c # cs)")
    case None
    with Cons.prems have "findMatch cs (Suc i) = Some (index, kind, captured, len)" by simp
    from Cons.IH [OF this] have le: "Suc i \<le> index"
      and m: "matchInline (drop (index - Suc i) cs) = Some (kind, captured, len)" by auto
    from le have "index - i = Suc (index - Suc i)" by simp
    with le m show ?thesis by simp
  next
    case (Some m)
    with Cons.prems show ?thesis by (cases m) auto
  qed
qed

lemma parseInlineLoop_extends:
  "\<exists>added. snd (parseInlineLoop t baseOffset baseStyle lastEnd segs) = segs @ added"
proof (induction t baseOffset baseStyle lastEnd segs rule: parseInlineLoop.induct)
  case (1 t baseOffset baseStyle lastEnd segs)
  show ?case
  proof (cases "findMatch (drop lastEnd t) lastEnd")
    case None
    then show ?thesis by (simp add: parseInlineLoop.simps)
  next
    case (Some m)
    obtain index kind captured len where m: "m = (index, kind, captured, len)" by (cases m) auto
    from "1.IH" [OF Some [unfolded m] refl refl refl] Some m
    show ?thesis by (subst parseInlineLoop.simps) auto
  qed
qed

lemma slice_take_drop:
  assumes "take k (drop n s) = c" and "length c = k"
  shows "slice s (int n) (int n + int k) = c"
proof -
  from assms have "k \<le> length s - n" by (metis length_drop length_take min.absorb_iff2 min.commute nat_le_linear)
  then show ?thesis using assms
    by (cases "k = 0") (auto simp: slice_def Let_def min_def nat_add_distrib)
qed

section \<open>Facts about the block parser\<close>

lemma splitLines_nonempty: "splitLines s \<noteq> []"
  by (induction s) (auto split: list.splits)

lemma joinLines_splitLines: "joinLines (splitLines s) = s"
proof (induction s)
  case Nil
  show ?case by simp
next
  case (Cons c cs)
  show ?case
  proof (cases "splitLines cs")
    case Nil
    with splitLines_nonempty show ?thesis by simp
  next
    case (Cons l ls)
    with Cons.IH show ?thesis by (cases ls) auto
  qed
qed

lemma joinLines_append:
  "pre \<noteq> [] \<Longrightarrow> post \<noteq> [] \<Longrightarrow> joinLines (pre @ post) = joinLines pre @ 10 # joinLines post"
proof (induction pre rule: joinLines.induct)
  case 1
  then show ?case by simp
next
  case (2 l)
  then show ?case by (cases post) auto
next
  case (3 l m ls)
  then show ?case by simp
qed

lemma joinLines_length: "ls \<noteq> [] \<Longrightarrow> int (length (joinLines ls)) + 1 = linesLength ls"
  by (induction ls rule: joinLines.induct) (auto simp: linesLength_def)

lemma parseBlocksLoop_step:
  "\<exists>ty n lvl ord.
     parseBlocksLoop (line # rest) offset =
       mkBlock ty (line # take n rest) offset lvl ord
       # parseBlocksLoop (drop n rest) (offset + linesLength (line # take n rest))"
proof -
  have one: "\<And>ty lvl ord.
     mkBlock ty [line] offset lvl ord # parseBlocksLoop rest (offset + int (length line) + 1) =
     mkBlock ty (line # take 0 rest) offset lvl ord
       # parseBlocksLoop (drop 0 rest) (offset + linesLength (line # take 0 rest))"
    by (simp add: linesLength_def add.assoc)
  show ?thesis
    unfolding parseBlocksLoop.simps Let_def one
    by (simp only: split: if_split) blast
qed

lemma joinLines_Cons: "rs \<noteq> [] \<Longrightarrow> joinLines (l # rs) = l @ 10 # joinLines rs"
  by (cases rs) auto

lemma parseBlocksLoop_spans:
  "ls \<noteq> [] \<Longrightarrow>
   joinLines (map source (parseBlocksLoop ls offset)) = joinLines ls
   \<and> contiguous offset (parseBlocksLoop ls offset)
   \<and> parseBlocksLoop ls offset \<noteq> []"
proof (induction "length ls" arbitrary: ls offset rule: less_induct)
  case less
  from less.prems obtain line rest where ls: "ls = line # rest" by (cases ls) auto
  from parseBlocksLoop_step [of line rest offset]
  obtain ty n lvl ord where step:
    "parseBlocksLoop (line # rest) offset =
       mkBlock ty (line # take n rest) offset lvl ord
       # parseBlocksLoop (drop n rest) (offset + linesLength (line # take n rest))"
    by blast
  let ?pre = "line # take n rest"
  let ?post = "drop n rest"
  let ?b = "mkBlock ty ?pre offset lvl ord"
  let ?next = "offset + linesLength ?pre"
  have split: "ls = ?pre @ ?post" by (simp add: ls)
  have src: "source ?b = joinLines ?pre" and off: "sourceOffset ?b = offset"
    by (simp_all add: mkBlock_def)
  have nxt: "?next = offset + int (length (source ?b)) + 1"
    using joinLines_length [of ?pre] by (simp add: src)
  show ?case
  proof (cases "?post = []")
    case True
    have "parseBlocksLoop ls offset = [?b]"
      unfolding ls step True by (simp add: parseBlocksLoop.simps)
    moreover have "joinLines ?pre = joinLines ls" using split True by simp
    ultimately show ?thesis using src off by simp
  next
    case False
    have "length ?post < length ls" by (simp add: ls)
    from less.hyps [OF this False, of ?next]
    have ih: "joinLines (map source (parseBlocksLoop ?post ?next)) = joinLines ?post"
      "contiguous ?next (parseBlocksLoop ?post ?next)"
      "parseBlocksLoop ?post ?next \<noteq> []" by auto
    have eq: "parseBlocksLoop ls offset = ?b # parseBlocksLoop ?post ?next"
      unfolding ls by (rule step)
    have "joinLines (map source (parseBlocksLoop ls offset))
        = source ?b @ 10 # joinLines (map source (parseBlocksLoop ?post ?next))"
      unfolding eq using ih(3) by (simp add: joinLines_Cons)
    also have "\<dots> = joinLines ?pre @ 10 # joinLines ?post" by (simp add: src ih(1))
    also have "\<dots> = joinLines (?pre @ ?post)"
      using False joinLines_append [of ?pre ?post] by simp
    finally have j: "joinLines (map source (parseBlocksLoop ls offset)) = joinLines ls"
      using split by simp
    have "contiguous offset (parseBlocksLoop ls offset)"
      unfolding eq using ih(2) off nxt by (simp add: add.assoc)
    with j eq show ?thesis by simp
  qed
qed

lemma slice_middle:
  "slice (p @ s @ r) (int (length p)) (int (length p) + int (length s)) = s"
  by (cases "length s = 0") (auto simp: slice_def Let_def min_def nat_add_distrib)

lemma contiguous_slices:
  "contiguous (int (length pad)) bs \<Longrightarrow>
   list_all (\<lambda>b. slice (pad @ joinLines (map source bs)) (sourceOffset b)
                   (sourceOffset b + int (length (source b))) = source b) bs"
proof (induction bs arbitrary: pad)
  case Nil
  show ?case by simp
next
  case (Cons b bs)
  from Cons.prems have off: "sourceOffset b = int (length pad)"
    and rest: "contiguous (int (length pad) + int (length (source b)) + 1) bs" by auto
  show ?case
  proof (cases "bs = []")
    case True
    have "slice (pad @ source b @ []) (int (length pad))
        (int (length pad) + int (length (source b))) = source b" by (rule slice_middle)
    with True off show ?thesis by simp
  next
    case False
    let ?pad = "pad @ source b @ [10]"
    have full: "pad @ joinLines (map source (b # bs)) = ?pad @ joinLines (map source bs)"
      using False by (simp add: joinLines_Cons)
    have "int (length ?pad) = int (length pad) + int (length (source b)) + 1" by simp
    with rest have "contiguous (int (length ?pad)) bs" by (simp only:)
    from Cons.IH [OF this] have tl: "list_all (\<lambda>b. slice (?pad @ joinLines (map source bs))
         (sourceOffset b) (sourceOffset b + int (length (source b))) = source b) bs" .
    have "slice (pad @ source b @ (10 # joinLines (map source bs))) (int (length pad))
        (int (length pad) + int (length (source b))) = source b" by (rule slice_middle)
    then have hd: "slice (pad @ joinLines (map source (b # bs))) (sourceOffset b)
        (sourceOffset b + int (length (source b))) = source b"
      using False off by (simp add: joinLines_Cons)
    from hd tl show ?thesis unfolding full [symmetric] by simp
  qed
qed

section \<open>Facts about the renderer\<close>

lemmas blocks_eval =
  parseBlocks_def parseBlocksLoop.simps headingMatch_def isRuleMark_def startsWithRule_def
  isHorizontalRule_def startsUnordered_def startsDash_def startsOrdered_def startsSpace_def
  startsHeading_def fence_def continuesCode_def continuesQuote_def continuesUnordered_def
  continuesOrdered_def continuesParagraph_def linesLength_def mkBlock_def codeCount_def

lemmas render_eval =
  renderBlocks_def renderBlock_def renderHeading_def renderHr_def renderParagraph_def
  blankLine_def stripHeadingMarker_def stripQuoteMarker_def stripUnorderedMarker_def
  stripOrderedMarker_def decimal.simps wordWrapSegments_def
  MARKDOWN_STYLES_h1_def MARKDOWN_STYLES_h2_def MARKDOWN_STYLES_h3_def MARKDOWN_STYLES_h4_def
  MARKDOWN_STYLES_codeBlock_def MARKDOWN_STYLES_blockquote_def


lemma wordWrapSegments_total:
  assumes "1 \<le> width"
  shows "\<exists>ls. wordWrapSegments segs width = Some ls"
proof -
  from wordWrap_lines [OF assms, of "concat (map stext segs)"]
  obtain ws where "wordWrap (concat (map stext segs)) width = Some ws" by blast
  then show ?thesis by (simp add: wordWrapSegments_def Let_def)
qed

lemma renderQuoteLines_total:
  assumes "3 \<le> terminalWidth"
  shows "\<exists>r. renderQuoteLines ls terminalWidth offset lineNo = Some r"
proof (induction ls arbitrary: offset lineNo)
  case Nil
  show ?case by simp
next
  case (Cons quoteLine rest)
  let ?quoted = "stripQuoteMarker quoteLine"
  let ?prefixLen = "int (length quoteLine) - int (length ?quoted)"
  let ?segs = "\<lparr> sourceOffset = offset, sourceLength = ?prefixLen, stext = [9474, 32],
              style = emptyStyle\<lparr> color := Some ''gray'' \<rparr> \<rparr>
            # parseInline ?quoted (offset + ?prefixLen) MARKDOWN_STYLES_blockquote"
  from assms have "1 \<le> terminalWidth - 2" by simp
  from wordWrapSegments_total [OF this, of ?segs]
  obtain wrapped where w: "wordWrapSegments ?segs (terminalWidth - 2) = Some wrapped" by blast
  from Cons.IH [of "offset + int (length quoteLine) + 1" "lineNo + int (length wrapped)"]
  obtain r where "renderQuoteLines rest terminalWidth (offset + int (length quoteLine) + 1)
     (lineNo + int (length wrapped)) = Some r" by blast
  with w show ?case by (cases r) (simp add: Let_def)
qed

lemma renderListLines_total:
  assumes "3 \<le> terminalWidth"
  shows "\<exists>r. renderListLines ls isOrdered terminalWidth offset itemNum lineNo = Some r"
proof (induction ls arbitrary: offset itemNum lineNo)
  case Nil
  show ?case by simp
next
  case (Cons listLine rest)
  show ?case
  proof (cases "trim listLine = []")
    case True
    with Cons.IH show ?thesis by simp
  next
    case False
    let ?bullet = "if isOrdered then decimal itemNum @ [46, 32] else [8226, 32]"
    let ?item = "stripOrderedMarker (stripUnorderedMarker listLine)"
    let ?prefixLength = "int (length listLine) - int (length ?item)"
    let ?segs = "\<lparr> sourceOffset = offset, sourceLength = ?prefixLength, stext = ?bullet,
                 style = emptyStyle\<lparr> color := Some ''cyan'' \<rparr> \<rparr>
               # parseInline ?item (offset + ?prefixLength) emptyStyle"
    from assms have "1 \<le> terminalWidth - 2" by simp
    from wordWrapSegments_total [OF this, of ?segs]
    obtain wrapped where w: "wordWrapSegments ?segs (terminalWidth - 2) = Some wrapped" by blast
    from Cons.IH [of "offset + int (length listLine) + 1"
        "if isOrdered then itemNum + 1 else itemNum" "lineNo + int (length wrapped)"]
    obtain r where "renderListLines rest isOrdered terminalWidth
        (offset + int (length listLine) + 1) (if isOrdered then itemNum + 1 else itemNum)
        (lineNo + int (length wrapped)) = Some r" by blast
    with w False show ?thesis by (cases r) (simp add: Let_def)
  qed
qed

lemma case_Some_total:
  "\<exists>v. c = Some v \<Longrightarrow> \<exists>r. (case c of None \<Rightarrow> None | Some v \<Rightarrow> Some (g v)) = Some r"
  by auto

lemma renderHeading_total:
  assumes "1 \<le> terminalWidth"
  shows "\<exists>r. renderHeading block terminalWidth lineNo = Some r"
  unfolding renderHeading_def Let_def
  by (rule case_Some_total) (rule wordWrapSegments_total [OF assms])

lemma renderParagraph_total:
  assumes "1 \<le> terminalWidth"
  shows "\<exists>r. renderParagraph block terminalWidth lineNo = Some r"
  unfolding renderParagraph_def Let_def
  by (rule case_Some_total) (rule wordWrapSegments_total [OF assms])

lemma renderBlock_total:
  assumes "4 \<le> terminalWidth"
  shows "\<exists>r. renderBlock block terminalWidth lineNo = Some (Inr r)"
proof (cases "btype block")
  case Heading
  from assms have "1 \<le> terminalWidth" by simp
  from renderHeading_total [OF this, of block lineNo] show ?thesis using Heading
    by (auto simp: renderBlock_def)
next
  case Paragraph
  from assms have "1 \<le> terminalWidth" by simp
  from renderParagraph_total [OF this, of block lineNo] show ?thesis using Paragraph
    by (auto simp: renderBlock_def)
next
  case CodeBlock
  then show ?thesis by (simp add: renderBlock_def)
next
  case ListBlock
  from assms have "3 \<le> terminalWidth" by simp
  from renderListLines_total [OF this, of "splitLines (source block)" "ordered block = Some True"
      "sourceOffset block" 1 lineNo]
  show ?thesis using ListBlock by (auto simp: renderBlock_def)
next
  case Blockquote
  from assms have "3 \<le> terminalWidth" by simp
  from renderQuoteLines_total [OF this, of "splitLines (source block)" "sourceOffset block" lineNo]
  show ?thesis using Blockquote by (auto simp: renderBlock_def)
next
  case Hr
  with assms show ?thesis by (simp add: renderBlock_def renderHr_def Let_def)
next
  case Blank
  then show ?thesis by (simp add: renderBlock_def)
qed

lemma renderBlocksLoop_total:
  assumes "4 \<le> terminalWidth"
  shows "\<exists>lines. renderBlocksLoop blocks terminalWidth lineNo = Some (Inr lines)"
proof (induction blocks arbitrary: lineNo)
  case Nil
  show ?case by simp
next
  case (Cons block rest)
  from renderBlock_total [OF assms, of block lineNo]
  obtain ls n where b: "renderBlock block terminalWidth lineNo = Some (Inr (ls, n))" by force
  from Cons.IH [of n]
  obtain others where "renderBlocksLoop rest terminalWidth n = Some (Inr others)" by blast
  with b show ?case by simp
qed

lemma renderBlock_total_plain:
  assumes "1 \<le> terminalWidth"
    and "btype block = Blank \<or> btype block = Heading \<or> btype block = CodeBlock
         \<or> btype block = Paragraph"
  shows "\<exists>r. renderBlock block terminalWidth lineNo = Some (Inr r)"
proof (cases "btype block")
  case Heading
  from renderHeading_total [OF assms(1), of block lineNo] show ?thesis using Heading
    by (auto simp: renderBlock_def)
next
  case Paragraph
  from renderParagraph_total [OF assms(1), of block lineNo] show ?thesis using Paragraph
    by (auto simp: renderBlock_def)
next
  case CodeBlock
  then show ?thesis by (simp add: renderBlock_def)
next
  case Blank
  then show ?thesis by (simp add: renderBlock_def)
next
  case ListBlock
  with assms(2) show ?thesis by simp
next
  case Blockquote
  with assms(2) show ?thesis by simp
next
  case Hr
  with assms(2) show ?thesis by simp
qed

lemma renderBlocksLoop_total_plain:
  assumes "1 \<le> terminalWidth"
  shows "list_all (\<lambda>block. btype block = Blank \<or> btype block = Heading
             \<or> btype block = CodeBlock \<or> btype block = Paragraph) blocks \<Longrightarrow>
         \<exists>lines. renderBlocksLoop blocks terminalWidth lineNo = Some (Inr lines)"
proof (induction blocks arbitrary: lineNo)
  case Nil
  show ?case by simp
next
  case (Cons block rest)
  from Cons.prems have p: "btype block = Blank \<or> btype block = Heading
      \<or> btype block = CodeBlock \<or> btype block = Paragraph"
    and r: "list_all (\<lambda>block. btype block = Blank \<or> btype block = Heading
             \<or> btype block = CodeBlock \<or> btype block = Paragraph) rest" by auto
  from renderBlock_total_plain [OF assms p, of lineNo]
  obtain ls n where b: "renderBlock block terminalWidth lineNo = Some (Inr (ls, n))" by force
  from Cons.IH [OF r, of n]
  obtain others where "renderBlocksLoop rest terminalWidth n = Some (Inr others)" by blast
  with b show ?case by simp
qed

section \<open>Facts about the intra-segment mapping\<close>

lemma slice_nth:
  assumes "0 \<le> lo" and "i < length (slice s lo hi)"
  shows "slice s lo hi ! i = s ! (nat lo + i) \<and> nat lo + i < length s"
proof -
  from assms(2) have "slice s lo hi \<noteq> []" by auto
  with assms(1) have lo: "lo < int (length s)"
    by (auto simp: slice_def Let_def min_def split: if_splits)
  with assms(1) have "slice s lo hi = take (length (slice s lo hi)) (drop (nat lo) s)"
    by (simp add: slice_def Let_def min_def)
  with assms(2) have "slice s lo hi ! i = drop (nat lo) s ! i"
    by (metis nth_take)
  moreover from assms lo have "nat lo + i < length s"
    by (auto simp: slice_def Let_def min_def split: if_splits)
  ultimately show ?thesis by simp
qed

lemma standsAt_slice:
  assumes "standsAt doc base t" and "0 \<le> lo"
  shows "standsAt doc (base + lo) (slice t lo hi)"
  unfolding standsAt_def list_all_iff
proof
  fix i assume "i \<in> set [0..<length (slice t lo hi)]"
  then have i: "i < length (slice t lo hi)" by simp
  from slice_nth [OF assms(2) i]
  have nth: "slice t lo hi ! i = t ! (nat lo + i)" and len: "nat lo + i < length t" by auto
  from assms(1) have "\<And>j. j < length t \<Longrightarrow>
      0 \<le> base + int j \<and> base + int j < int (length doc) \<and> doc ! nat (base + int j) = t ! j"
    by (simp add: standsAt_def list_all_iff)
  from this [OF len] assms(2) nth
  show "0 \<le> base + lo + int i \<and> base + lo + int i < int (length doc)
        \<and> doc ! nat (base + lo + int i) = slice t lo hi ! i"
    by (simp add: add.assoc)
qed

lemma slice_whole: "slice s 0 (int (length s)) = s"
  by (simp add: slice_def Let_def)

lemma intraSegment_plain:
  assumes "standsAt doc base t" and "0 \<le> lo"
  shows "intraSegment doc (plainSegment (slice t lo hi) (base + lo) baseStyle)"
  using standsAt_slice [OF assms] by (simp add: intraSegment_def plainSegment_def)

lemma overlapSegments_intra:
  "list_all (intraSegment doc) segs \<Longrightarrow>
   list_all (intraSegment doc) (overlapSegments segs segmentOffset lineTextStart lineTextEnd)"
proof (induction segs arbitrary: segmentOffset)
  case Nil
  show ?case by simp
next
  case (Cons segment rest)
  from Cons.prems have s: "standsAt doc (sourceOffset segment) (stext segment)"
    by (simp add: intraSegment_def)
  from Cons.prems have r: "list_all (intraSegment doc) rest" by simp
  let ?lo = "max segmentOffset lineTextStart - segmentOffset"
  have "0 \<le> ?lo" by simp
  from standsAt_slice [OF s this]
  have "\<And>hi. standsAt doc (sourceOffset segment + ?lo) (slice (stext segment) ?lo hi)" .
  with Cons.IH [OF r] show ?case by (simp add: Let_def intraSegment_def)
qed

lemma wrapLines_intra:
  "list_all (intraSegment doc) segs \<Longrightarrow>
   list_all (\<lambda>line. list_all (intraSegment doc) (segments line))
     (wrapLines segs fullText wrapped textOffset lineNo)"
proof (induction wrapped arbitrary: textOffset lineNo)
  case Nil
  show ?case by simp
next
  case (Cons wrappedLine rest)
  from overlapSegments_intra [OF Cons.prems]
  have "list_all (intraSegment doc)
     (overlapSegments segs 0 textOffset (textOffset + int (length wrappedLine)))" .
  with Cons.IH [OF Cons.prems] show ?case
    by (auto simp: Let_def split: list.split)
qed

lemma wordWrapSegments_intra:
  assumes "wordWrapSegments segs width = Some lines" and "list_all (intraSegment doc) segs"
  shows "list_all (\<lambda>line. list_all (intraSegment doc) (segments line)) lines"
proof -
  from assms(1) consider
    (blank) "list_all (\<lambda>line. list_all (\<lambda>s. stext s = []) (segments line)) lines"
    | (wrapped) ws where "lines = wrapLines segs (concat (map stext segs)) ws 0 1"
    unfolding wordWrapSegments_def Let_def
    by (auto split: if_splits option.splits)
  then show ?thesis
  proof cases
    case blank
    then show ?thesis
      by (auto simp: list_all_iff intraSegment_def standsAt_def)
  next
    case wrapped
    with wrapLines_intra [OF assms(2)] show ?thesis by simp
  qed
qed

lemma findMatch_captured:
  assumes "findMatch (drop lastEnd t) lastEnd = Some (index, kind, captured, len)"
  shows "slice t (int index + skipOf kind) (int index + skipOf kind + int (length captured))
         = captured"
proof -
  from findMatch_match [OF assms] have m: "matchInline (drop index t) = Some (kind, captured, len)"
    by auto
  from matchInline_content [OF m]
  have sk: "skipOf kind = int (length (openingDelimiter kind))"
    and tk: "take (length captured) (drop (nat (skipOf kind)) (drop index t)) = captured"
    by auto
  from tk sk
  have "take (length captured) (drop (index + length (openingDelimiter kind)) t) = captured"
    by (simp add: add.commute)
  from slice_take_drop [OF this refl] sk show ?thesis by simp
qed

lemma parseInlineLoop_intra:
  assumes "standsAt doc baseOffset t"
  shows "list_all (intraSegment doc) segs \<Longrightarrow>
         list_all (intraSegment doc) (snd (parseInlineLoop t baseOffset baseStyle lastEnd segs))"
  using assms
proof (induction t baseOffset baseStyle lastEnd segs rule: parseInlineLoop.induct)
  case (1 t baseOffset baseStyle lastEnd segs)
  show ?case
  proof (cases "findMatch (drop lastEnd t) lastEnd")
    case None
    with "1.prems" show ?thesis by (simp add: parseInlineLoop.simps)
  next
    case (Some m)
    obtain index kind captured len where m: "m = (index, kind, captured, len)"
      by (cases m) auto
    let ?before = "if lastEnd < index
       then [plainSegment (slice t (int lastEnd) (int index)) (baseOffset + int lastEnd) baseStyle]
       else []"
    let ?span = "spanSegment kind captured (baseOffset + int index) baseStyle"
    have b: "list_all (intraSegment doc) ?before"
      using intraSegment_plain [OF "1.prems"(2), of "int lastEnd" "int index" baseStyle] by simp
    have "0 \<le> int index + skipOf kind" by (cases kind) auto
    from standsAt_slice [OF "1.prems"(2) this]
    have "standsAt doc (baseOffset + (int index + skipOf kind))
       (slice t (int index + skipOf kind) (int index + skipOf kind + int (length captured)))" .
    with findMatch_captured [OF Some [unfolded m]]
    have "standsAt doc (baseOffset + (int index + skipOf kind)) captured" by simp
    then have sp: "intraSegment doc ?span"
      by (simp add: intraSegment_def spanSegment_def add.assoc)
    from "1.prems"(1) b sp have "list_all (intraSegment doc) (segs @ ?before @ [?span])" by simp
    from "1.IH" [OF Some [unfolded m] refl refl refl this "1.prems"(2)] Some m
    show ?thesis by (subst parseInlineLoop.simps) simp
  qed
qed

lemma parseInline_intra:
  assumes "standsAt doc baseOffset t"
  shows "list_all (intraSegment doc) (parseInline t baseOffset baseStyle)"
proof -
  obtain lastEnd matched where l: "parseInlineLoop t baseOffset baseStyle 0 [] = (lastEnd, matched)"
    by (cases "parseInlineLoop t baseOffset baseStyle 0 []") auto
  from parseInlineLoop_intra [OF assms, of "[]" baseStyle 0] l
  have m: "list_all (intraSegment doc) matched" by simp
  have r: "intraSegment doc (plainSegment (sliceFrom t (int lastEnd)) (baseOffset + int lastEnd) baseStyle)"
    unfolding sliceFrom_def by (rule intraSegment_plain [OF assms]) simp
  have w: "intraSegment doc (plainSegment t baseOffset baseStyle)"
    using assms by (simp add: intraSegment_def plainSegment_def)
  from m r w l show ?thesis by (simp add: parseInline_def Let_def)
qed

lemma renumber_segments:
  "list_all (\<lambda>line. P (segments line)) ls \<Longrightarrow>
   list_all (\<lambda>line. P (segments line)) (renumber ls n)"
  by (induction ls arbitrary: n) auto

text \<open>
  \<open>wordWrapSegments\<close> cuts segments into pieces and keeps their styles, so it keeps every
  property of segments that passes from a segment to its pieces and holds of the empty
  segment of a blank line.
\<close>

lemma overlapSegments_pieces:
  assumes closed: "\<And>seg lo hi len. P seg \<Longrightarrow> 0 \<le> lo \<Longrightarrow>
      P \<lparr> sourceOffset = sourceOffset seg + lo, sourceLength = len,
          stext = slice (stext seg) lo hi, style = style seg \<rparr>"
  shows "list_all P segs \<Longrightarrow>
   list_all P (overlapSegments segs segmentOffset lineTextStart lineTextEnd)"
proof (induction segs arbitrary: segmentOffset)
  case Nil
  show ?case by simp
next
  case (Cons segment rest)
  from Cons.prems have s: "P segment" and r: "list_all P rest" by auto
  let ?lo = "max segmentOffset lineTextStart - segmentOffset"
  have "0 \<le> ?lo" by simp
  from closed [OF s this]
  have "\<And>hi len. P \<lparr> sourceOffset = sourceOffset segment + ?lo, sourceLength = len,
          stext = slice (stext segment) ?lo hi, style = style segment \<rparr>" .
  with Cons.IH [OF r] show ?case by (simp add: Let_def)
qed

lemma wrapLines_pieces:
  assumes closed: "\<And>seg lo hi len. P seg \<Longrightarrow> 0 \<le> lo \<Longrightarrow>
      P \<lparr> sourceOffset = sourceOffset seg + lo, sourceLength = len,
          stext = slice (stext seg) lo hi, style = style seg \<rparr>"
    and segs: "list_all P segs"
  shows "list_all (\<lambda>line. list_all P (segments line))
     (wrapLines segs fullText wrapped textOffset lineNo)"
proof (induction wrapped arbitrary: textOffset lineNo)
  case Nil
  show ?case by simp
next
  case (Cons wrappedLine rest)
  from overlapSegments_pieces [of P, OF closed segs]
  have "list_all P
     (overlapSegments segs 0 textOffset (textOffset + int (length wrappedLine)))" by blast
  with Cons.IH show ?case
    by (auto simp: Let_def split: list.split)
qed

lemma wordWrapSegments_pieces:
  assumes closed: "\<And>seg lo hi len. P seg \<Longrightarrow> 0 \<le> lo \<Longrightarrow>
      P \<lparr> sourceOffset = sourceOffset seg + lo, sourceLength = len,
          stext = slice (stext seg) lo hi, style = style seg \<rparr>"
    and empty: "\<And>seg. stext seg = [] \<Longrightarrow> style seg = emptyStyle \<Longrightarrow> P seg"
    and ret: "wordWrapSegments segs width = Some lines"
    and segs: "list_all P segs"
  shows "list_all (\<lambda>line. list_all P (segments line)) lines"
proof -
  from ret consider
    (blank) "list_all (\<lambda>line. list_all (\<lambda>s. stext s = [] \<and> style s = emptyStyle) (segments line)) lines"
    | (wrapped) ws where "lines = wrapLines segs (concat (map stext segs)) ws 0 1"
    unfolding wordWrapSegments_def Let_def
    by (auto split: if_splits option.splits)
  then show ?thesis
  proof cases
    case blank
    then show ?thesis
      by (auto simp: list_all_iff intro: empty)
  next
    case wrapped
    with wrapLines_pieces [of P, OF closed segs] show ?thesis by simp
  qed
qed

lemma intraSegment_piece:
  assumes "intraSegment doc seg" and "0 \<le> lo"
  shows "intraSegment doc \<lparr> sourceOffset = sourceOffset seg + lo, sourceLength = len,
          stext = slice (stext seg) lo hi, style = style seg \<rparr>"
  using standsAt_slice [of doc "sourceOffset seg" "stext seg" lo hi] assms
  by (simp add: intraSegment_def)

lemma intraSegment_empty: "stext seg = [] \<Longrightarrow> intraSegment doc seg"
  by (simp add: intraSegment_def standsAt_def)

lemma decorative_piece:
  "decorative seg \<Longrightarrow>
   decorative \<lparr> sourceOffset = off, sourceLength = len, stext = t, style = style seg \<rparr>"
  by (simp add: decorative_def)

lemma wordWrapSegments_decorated:
  assumes ret: "wordWrapSegments segs width = Some lines"
    and segs: "list_all (\<lambda>seg. decorative seg \<or> intraSegment doc seg) segs"
  shows "list_all (\<lambda>line. list_all (\<lambda>seg. decorative seg \<or> intraSegment doc seg)
           (segments line)) lines"
proof (rule wordWrapSegments_pieces [OF _ _ ret segs])
  fix seg :: LineSegment and lo hi len :: int
  assume "decorative seg \<or> intraSegment doc seg" and "0 \<le> lo"
  then show "decorative \<lparr> sourceOffset = sourceOffset seg + lo, sourceLength = len,
          stext = slice (stext seg) lo hi, style = style seg \<rparr>
     \<or> intraSegment doc \<lparr> sourceOffset = sourceOffset seg + lo, sourceLength = len,
          stext = slice (stext seg) lo hi, style = style seg \<rparr>"
    using decorative_piece intraSegment_piece by blast
next
  fix seg :: LineSegment
  assume "stext seg = []"
  then show "decorative seg \<or> intraSegment doc seg" by (simp add: intraSegment_empty)
qed

text \<open>Where the parts of a string stand when the string stands in the source.\<close>

lemma standsAt_nth:
  "standsAt doc offset t \<longleftrightarrow>
   (\<forall>i < length t. 0 \<le> offset + int i \<and> offset + int i < int (length doc)
        \<and> doc ! nat (offset + int i) = t ! i)"
  by (auto simp: standsAt_def list_all_iff)

lemma standsAt_append:
  assumes "standsAt doc offset (a @ b)"
  shows "standsAt doc offset a \<and> standsAt doc (offset + int (length a)) b"
proof -
  from assms have all: "\<And>i. i < length a + length b \<Longrightarrow>
     0 \<le> offset + int i \<and> offset + int i < int (length doc)
        \<and> doc ! nat (offset + int i) = (a @ b) ! i"
    by (simp add: standsAt_nth)
  have "standsAt doc offset a"
    unfolding standsAt_nth
  proof (intro allI impI)
    fix i assume i: "i < length a"
    then have "i < length a + length b" by simp
    from all [OF this] i
    show "0 \<le> offset + int i \<and> offset + int i < int (length doc)
        \<and> doc ! nat (offset + int i) = a ! i" by (simp add: nth_append)
  qed
  moreover have "standsAt doc (offset + int (length a)) b"
    unfolding standsAt_nth
  proof (intro allI impI)
    fix i assume i: "i < length b"
    then have "length a + i < length a + length b" by simp
    from all [OF this]
    show "0 \<le> offset + int (length a) + int i \<and> offset + int (length a) + int i < int (length doc)
        \<and> doc ! nat (offset + int (length a) + int i) = b ! i"
      by (simp add: nth_append add.assoc)
  qed
  ultimately show ?thesis by simp
qed

lemma standsAt_drop:
  assumes "standsAt doc offset s" and "k \<le> length s"
  shows "standsAt doc (offset + int (length s) - int (length (drop k s))) (drop k s)"
proof -
  from assms(1) have "standsAt doc offset (take k s @ drop k s)" by simp
  from standsAt_append [OF this] assms(2)
  have "standsAt doc (offset + int k) (drop k s)" by (auto simp: min_def split: if_splits)
  moreover from assms(2) have "int (length s) - int (length (drop k s)) = int k" by simp
  ultimately show ?thesis by (simp add: add_diff_eq [symmetric])
qed

lemma standsAt_Cons:
  "standsAt doc offset (c # s) \<Longrightarrow> standsAt doc (offset + 1) s"
  using standsAt_append [of doc offset "[c]" s] by simp

lemma spaced_length: "length (spaced s) = length s"
  by (simp add: spaced_def)

lemma standsAt_spaced:
  "standsAt doc offset s \<Longrightarrow> standsAt (spaced doc) offset (spaced s)"
  by (auto simp: standsAt_nth spaced_def)

lemma joinSpaces_spaced: "joinSpaces (splitLines s) = spaced s"
proof (induction s)
  case Nil
  show ?case by (simp add: spaced_def)
next
  case (Cons c cs)
  show ?case
  proof (cases "splitLines cs")
    case Nil
    with splitLines_nonempty show ?thesis by simp
  next
    case (Cons l ls)
    with Cons.IH show ?thesis by (cases ls) (auto simp: spaced_def)
  qed
qed

text \<open>
  The lines of a block stand in the source one after the other, each one character (the
  newline) after the end of the one before; \<open>offset\<close> is the running offset of the loops
  over the lines of a code block, a block quote and a list.
\<close>

fun linesAt :: "jstring \<Rightarrow> int \<Rightarrow> jstring list \<Rightarrow> bool" where
  "linesAt doc offset [] = True"
| "linesAt doc offset (l # ls) =
     (standsAt doc offset l \<and> linesAt doc (offset + int (length l) + 1) ls)"

lemma joinLines_linesAt:
  "standsAt doc offset (joinLines ls) \<Longrightarrow> linesAt doc offset ls"
proof (induction ls arbitrary: offset rule: joinLines.induct)
  case 1
  show ?case by simp
next
  case (2 l)
  then show ?case by simp
next
  case (3 l m ls)
  from "3.prems" have "standsAt doc offset (l @ 10 # joinLines (m # ls))" by simp
  from standsAt_append [OF this]
  have a: "standsAt doc offset l"
    and b: "standsAt doc (offset + int (length l)) (10 # joinLines (m # ls))" by auto
  from standsAt_Cons [OF b] have "standsAt doc (offset + int (length l) + 1) (joinLines (m # ls))" .
  from "3.IH" [OF this] a show ?case by simp
qed

lemma standsAt_middle: "standsAt (p @ s @ r) (int (length p)) s"
  by (simp add: standsAt_nth nth_append nat_add_distrib)

lemma contiguous_standsAt:
  "contiguous (int (length pad)) bs \<Longrightarrow>
   list_all (\<lambda>b. standsAt (pad @ joinLines (map source bs)) (sourceOffset b) (source b)) bs"
proof (induction bs arbitrary: pad)
  case Nil
  show ?case by simp
next
  case (Cons b bs)
  from Cons.prems have off: "sourceOffset b = int (length pad)"
    and rest: "contiguous (int (length pad) + int (length (source b)) + 1) bs" by auto
  show ?case
  proof (cases "bs = []")
    case True
    have "standsAt (pad @ source b @ []) (int (length pad)) (source b)" by (rule standsAt_middle)
    with True off show ?thesis by simp
  next
    case False
    let ?pad = "pad @ source b @ [10]"
    have full: "pad @ joinLines (map source (b # bs)) = ?pad @ joinLines (map source bs)"
      using False by (simp add: joinLines_Cons)
    have "int (length ?pad) = int (length pad) + int (length (source b)) + 1" by simp
    with rest have "contiguous (int (length ?pad)) bs" by (simp only:)
    from Cons.IH [OF this] have tl: "list_all (\<lambda>b. standsAt (?pad @ joinLines (map source bs))
         (sourceOffset b) (source b)) bs" .
    have "standsAt (pad @ source b @ (10 # joinLines (map source bs))) (int (length pad))
        (source b)" by (rule standsAt_middle)
    then have hd: "standsAt (pad @ joinLines (map source (b # bs))) (sourceOffset b) (source b)"
      using False off by (simp add: joinLines_Cons)
    from hd tl show ?thesis unfolding full [symmetric] by simp
  qed
qed

lemma parseBlocks_standsAt:
  assumes "block \<in> set (parseBlocks doc)"
  shows "standsAt doc (sourceOffset block) (source block)"
proof -
  from parseBlocksLoop_spans [OF splitLines_nonempty, of doc 0]
  have j: "joinLines (map source (parseBlocks doc)) = doc"
    and c: "contiguous 0 (parseBlocks doc)"
    by (simp_all add: parseBlocks_def joinLines_splitLines)
  from c have "contiguous (int (length ([] :: jstring))) (parseBlocks doc)" by simp
  from contiguous_standsAt [OF this] j assms show ?thesis by (simp add: list_all_iff)
qed

lemma parseBlocksLoop_heading:
  "list_all (\<lambda>b. btype b = Heading \<longrightarrow>
       level b = headingMatch (source b) \<and> headingMatch (source b) \<noteq> None)
     (parseBlocksLoop ls offset)"
proof (induction ls offset rule: parseBlocksLoop.induct)
  case (1 offset)
  show ?case by (simp add: parseBlocksLoop.simps)
next
  case (2 line rest offset)
  then show ?case
    by (subst parseBlocksLoop.simps) (simp add: Let_def mkBlock_def)
qed

lemma headingMatch_hashes:
  assumes "headingMatch s = Some k"
  shows "k = int (length (takeWhile (\<lambda>c. c = 35) s)) \<and> 1 \<le> k \<and> k \<le> 4"
  using assms by (auto simp: headingMatch_def Let_def split: if_splits)

lemma stripHeadingMarker_single:
  assumes "headingMatch s = Some k" and "markerSpaces s = 1"
  shows "stripHeadingMarker s = drop (nat k + 1) s \<and> nat k + 1 \<le> length s"
proof -
  let ?h = "length (takeWhile (\<lambda>c. c = 35) s)"
  let ?rest = "drop ?h s"
  from headingMatch_hashes [OF assms(1)] have k: "nat k = ?h" and h: "1 \<le> ?h" by auto
  have rest: "dropWhile (\<lambda>c. c = 35) s = ?rest" by (rule dropWhile_eq_drop)
  with assms(2) have sp: "length (takeWhile isWhitespace ?rest) = 1"
    by (simp add: markerSpaces_def)
  have "dropWhile isWhitespace ?rest = drop (length (takeWhile isWhitespace ?rest)) ?rest"
    by (rule dropWhile_eq_drop)
  with sp have d: "dropWhile isWhitespace ?rest = drop (?h + 1) s" by (simp add: add.commute)
  have "length (takeWhile isWhitespace ?rest) \<le> length ?rest" by (rule length_takeWhile_le)
  with sp have len: "?h + 1 \<le> length s" by simp
  from h sp d have "stripHeadingMarker s = drop (?h + 1) s"
    by (simp add: stripHeadingMarker_def Let_def)
  with k len show ?thesis by simp
qed

lemma stripQuoteMarker_drop: "\<exists>k \<le> length s. stripQuoteMarker s = drop k s"
proof (cases s)
  case Nil
  then show ?thesis by (simp add: stripQuoteMarker_def)
next
  case (Cons c rest)
  note s = Cons
  show ?thesis
  proof (cases "c = 62")
    case False
    with s have "stripQuoteMarker s = drop 0 s" by (simp add: stripQuoteMarker_def)
    then show ?thesis by blast
  next
    case True
    show ?thesis
    proof (cases rest)
      case Nil
      with s True have "stripQuoteMarker s = drop 1 s \<and> 1 \<le> length s"
        by (simp add: stripQuoteMarker_def)
      then show ?thesis by blast
    next
      case (Cons w rest')
      show ?thesis
      proof (cases "isWhitespace w")
        case True
        with s \<open>c = 62\<close> Cons have "stripQuoteMarker s = drop 2 s \<and> 2 \<le> length s"
          by (simp add: stripQuoteMarker_def)
        then show ?thesis by blast
      next
        case False
        with s \<open>c = 62\<close> Cons have "stripQuoteMarker s = drop 1 s \<and> 1 \<le> length s"
          by (simp add: stripQuoteMarker_def)
        then show ?thesis by blast
      qed
    qed
  qed
qed

lemma dropWhile_drop: "\<exists>k \<le> length s. dropWhile P s = drop k s"
proof -
  have "dropWhile P s = drop (length (takeWhile P s)) s" by (rule dropWhile_eq_drop)
  moreover have "length (takeWhile P s) \<le> length s" by (rule length_takeWhile_le)
  ultimately show ?thesis by blast
qed

lemma stripUnorderedMarker_drop: "\<exists>k \<le> length s. stripUnorderedMarker s = drop k s"
proof (cases s)
  case Nil
  then show ?thesis by (simp add: stripUnorderedMarker_def)
next
  case (Cons c rest)
  from dropWhile_drop [of rest isWhitespace]
  obtain k where k: "k \<le> length rest" "dropWhile isWhitespace rest = drop k rest" by blast
  then have a: "dropWhile isWhitespace rest = drop (Suc k) s \<and> Suc k \<le> length s"
    using Cons by simp
  have b: "s = drop 0 s \<and> 0 \<le> length s" by simp
  from a b Cons show ?thesis
    unfolding stripUnorderedMarker_def by (auto simp del: drop_0 drop_Suc_Cons)
qed

lemma stripOrderedMarker_drop: "\<exists>k \<le> length s. stripOrderedMarker s = drop k s"
proof -
  let ?d = "length (takeWhile isDigit s)"
  have b: "s = drop 0 s \<and> 0 \<le> length s" by simp
  show ?thesis
  proof (cases "drop ?d s")
    case Nil
    then have "stripOrderedMarker s = s" by (simp add: stripOrderedMarker_def Let_def)
    with b show ?thesis by metis
  next
    case (Cons c rest)
    from dropWhile_drop [of rest isWhitespace]
    obtain k where k: "k \<le> length rest" "dropWhile isWhitespace rest = drop k rest" by blast
    from Cons have r: "rest = drop (Suc ?d) s"
      by (metis drop_Suc list.sel(3) tl_drop)
    from Cons have "length (drop ?d s) = Suc (length rest)" by simp
    with k(1) have le: "Suc ?d + k \<le> length s" by simp
    from k(2) r have "dropWhile isWhitespace rest = drop (Suc ?d + k) s"
      by (simp add: add.commute)
    with le have a: "\<exists>k \<le> length s. dropWhile isWhitespace rest = drop k s" by blast
    have "stripOrderedMarker s = dropWhile isWhitespace rest \<or> stripOrderedMarker s = s"
      using Cons by (simp add: stripOrderedMarker_def Let_def)
    with a b show ?thesis by metis
  qed
qed

lemma stripListMarkers_drop:
  "\<exists>k \<le> length s. stripOrderedMarker (stripUnorderedMarker s) = drop k s"
proof -
  from stripUnorderedMarker_drop [of s]
  obtain k where k: "k \<le> length s" "stripUnorderedMarker s = drop k s" by blast
  from stripOrderedMarker_drop [of "drop k s"]
  obtain j where j: "j \<le> length (drop k s)"
    "stripOrderedMarker (drop k s) = drop j (drop k s)" by blast
  from k j have "stripOrderedMarker (stripUnorderedMarker s) = drop (j + k) s \<and> j + k \<le> length s"
    by simp
  then show ?thesis by blast
qed

lemma standsAt_stripped:
  assumes "standsAt doc offset s" and "\<exists>k \<le> length s. t = drop k s"
  shows "standsAt doc (offset + (int (length s) - int (length t))) t"
proof -
  from assms(2) obtain k where k: "k \<le> length s" "t = drop k s" by blast
  from standsAt_drop [OF assms(1) k(1)] k(2) show ?thesis
    by (simp add: add_diff_eq)
qed

lemma retarget_segments:
  assumes "\<And>wl. segments (f wl) = segments wl"
    and "list_all (\<lambda>line. P (segments line)) ls"
  shows "list_all (\<lambda>line. P (segments line)) (map f ls)"
  using assms by (induction ls) auto

lemma renderCodeLines_mapped:
  assumes "linesAt doc offset ls"
  shows "list_all (\<lambda>line. list_all (intraSegment doc) (segments line))
           (fst (renderCodeLines ls offset lineNo))"
  using assms
proof (induction ls arbitrary: offset lineNo)
  case Nil
  show ?case by simp
next
  case (Cons codeLine rest)
  from Cons.prems have l: "standsAt doc offset codeLine"
    and r: "linesAt doc (offset + int (length codeLine) + 1) rest" by auto
  from Cons.IH [OF r, of "lineNo + 1"] l show ?case
    by (auto simp: intraSegment_def split: prod.splits)
qed

lemma renderQuoteLines_mapped:
  assumes "linesAt doc offset ls"
    and "renderQuoteLines ls terminalWidth offset lineNo = Some (out, n)"
  shows "list_all (\<lambda>line. list_all (\<lambda>seg. decorative seg \<or> intraSegment doc seg)
           (segments line)) out"
  using assms
proof (induction ls arbitrary: offset lineNo out n)
  case Nil
  then show ?case by simp
next
  case (Cons quoteLine rest)
  let ?quoted = "stripQuoteMarker quoteLine"
  let ?prefixLen = "int (length quoteLine) - int (length ?quoted)"
  let ?bar = "\<lparr> sourceOffset = offset, sourceLength = ?prefixLen, stext = [9474, 32],
              style = emptyStyle\<lparr> color := Some ''gray'' \<rparr> \<rparr>"
  let ?segs = "?bar # parseInline ?quoted (offset + ?prefixLen) MARKDOWN_STYLES_blockquote"
  let ?Q = "\<lambda>seg. decorative seg \<or> intraSegment doc seg"
  from Cons.prems(1) have l: "standsAt doc offset quoteLine"
    and r: "linesAt doc (offset + int (length quoteLine) + 1) rest" by auto
  from Cons.prems(2) obtain wrapped ls' where
    w: "wordWrapSegments ?segs (terminalWidth - 2) = Some wrapped"
    and rec: "renderQuoteLines rest terminalWidth (offset + int (length quoteLine) + 1)
                (lineNo + int (length wrapped)) = Some (ls', n)"
    and out: "out = map (\<lambda>wl. wl\<lparr> sourceOffset := offset,
                                       sourceLength := int (length quoteLine) \<rparr>)
                          (renumber wrapped lineNo) @ ls'"
    by (auto simp: Let_def split: option.splits prod.splits)
  from standsAt_stripped [OF l stripQuoteMarker_drop]
  have "standsAt doc (offset + ?prefixLen) ?quoted" .
  from parseInline_intra [OF this]
  have c: "list_all (intraSegment doc)
     (parseInline ?quoted (offset + ?prefixLen) MARKDOWN_STYLES_blockquote)" .
  have d: "decorative ?bar" by (simp add: decorative_def)
  from c d have "list_all ?Q ?segs" by (simp add: list_all_iff)
  from wordWrapSegments_decorated [OF w this]
  have "list_all (\<lambda>line. list_all ?Q (segments line)) wrapped" .
  then have "list_all (\<lambda>line. list_all ?Q (segments line)) (renumber wrapped lineNo)"
    by (rule renumber_segments)
  then have "list_all (\<lambda>line. list_all ?Q (segments line))
     (map (\<lambda>wl. wl\<lparr> sourceOffset := offset, sourceLength := int (length quoteLine) \<rparr>)
        (renumber wrapped lineNo))"
    by (rule retarget_segments [rotated]) simp
  with Cons.IH [OF r rec] out show ?case by simp
qed

lemma renderListLines_mapped:
  assumes "linesAt doc offset ls"
    and "renderListLines ls isOrdered terminalWidth offset itemNum lineNo = Some (out, n)"
  shows "list_all (\<lambda>line. list_all (\<lambda>seg. decorative seg \<or> intraSegment doc seg)
           (segments line)) out"
  using assms
proof (induction ls arbitrary: offset itemNum lineNo out n)
  case Nil
  then show ?case by simp
next
  case (Cons listLine rest)
  from Cons.prems(1) have l: "standsAt doc offset listLine"
    and r: "linesAt doc (offset + int (length listLine) + 1) rest" by auto
  show ?case
  proof (cases "trim listLine = []")
    case True
    with Cons.prems(2) have "renderListLines rest isOrdered terminalWidth
        (offset + int (length listLine) + 1) itemNum (lineNo + 1) = Some (out, n)" by simp
    from Cons.IH [OF r this] show ?thesis .
  next
    case False
    let ?bullet = "if isOrdered then decimal itemNum @ [46, 32] else [8226, 32]"
    let ?item = "stripOrderedMarker (stripUnorderedMarker listLine)"
    let ?prefixLength = "int (length listLine) - int (length ?item)"
    let ?mark = "\<lparr> sourceOffset = offset, sourceLength = ?prefixLength, stext = ?bullet,
                 style = emptyStyle\<lparr> color := Some ''cyan'' \<rparr> \<rparr>"
    let ?segs = "?mark # parseInline ?item (offset + ?prefixLength) emptyStyle"
    let ?Q = "\<lambda>seg. decorative seg \<or> intraSegment doc seg"
    from Cons.prems(2) False obtain wrapped ls' where
      w: "wordWrapSegments ?segs (terminalWidth - 2) = Some wrapped"
      and rec: "renderListLines rest isOrdered terminalWidth
                  (offset + int (length listLine) + 1)
                  (if isOrdered then itemNum + 1 else itemNum)
                  (lineNo + int (length wrapped)) = Some (ls', n)"
      and out: "out = map (\<lambda>wl. wl\<lparr> sourceOffset := offset,
                                       sourceLength := int (length listLine), indent := 0 \<rparr>)
                          (renumber wrapped lineNo) @ ls'"
      by (auto simp: Let_def split: option.splits prod.splits)
    from standsAt_stripped [OF l stripListMarkers_drop]
    have "standsAt doc (offset + ?prefixLength) ?item" .
    from parseInline_intra [OF this]
    have c: "list_all (intraSegment doc) (parseInline ?item (offset + ?prefixLength) emptyStyle)" .
    have d: "decorative ?mark" by (simp add: decorative_def)
    from c d have "list_all ?Q ?segs" by (simp add: list_all_iff)
    from wordWrapSegments_decorated [OF w this]
    have "list_all (\<lambda>line. list_all ?Q (segments line)) wrapped" .
    then have "list_all (\<lambda>line. list_all ?Q (segments line)) (renumber wrapped lineNo)"
      by (rule renumber_segments)
    then have "list_all (\<lambda>line. list_all ?Q (segments line))
       (map (\<lambda>wl. wl\<lparr> sourceOffset := offset, sourceLength := int (length listLine),
                      indent := 0 \<rparr>)
          (renumber wrapped lineNo))"
      by (rule retarget_segments [rotated]) simp
    with Cons.IH [OF r rec] out show ?thesis by simp
  qed
qed

lemma spaced_single: "10 \<notin> set s \<Longrightarrow> spaced s = s"
  by (induction s) (auto simp: spaced_def)

lemma renderParagraph_mapped:
  assumes st: "standsAt doc (sourceOffset block) (source block)"
    and ret: "renderParagraph block terminalWidth lineNo = Some (out, n)"
  shows "list_all (\<lambda>line. list_all (\<lambda>seg. intraSegment (spaced doc) seg
           \<and> (10 \<in> set (source block) \<or> intraSegment doc seg)) (segments line)) out"
proof -
  let ?segs = "parseInline (spaced (source block)) (sourceOffset block) emptyStyle"
  from ret obtain wrapped where w: "wordWrapSegments ?segs terminalWidth = Some wrapped"
    and out: "out = renumber wrapped lineNo"
    by (auto simp: renderParagraph_def Let_def joinSpaces_spaced split: option.splits)
  from parseInline_intra [OF standsAt_spaced [OF st]]
  have "list_all (intraSegment (spaced doc)) ?segs" .
  from wordWrapSegments_intra [OF w this]
  have a: "list_all (\<lambda>line. list_all (intraSegment (spaced doc)) (segments line)) wrapped" .
  have b: "list_all (\<lambda>line. list_all (\<lambda>seg. 10 \<in> set (source block) \<or> intraSegment doc seg)
             (segments line)) wrapped"
  proof (cases "10 \<in> set (source block)")
    case True
    then show ?thesis by (simp add: list_all_iff)
  next
    case False
    with st have "standsAt doc (sourceOffset block) (spaced (source block))"
      by (simp add: spaced_single)
    from wordWrapSegments_intra [OF w parseInline_intra [OF this]]
    show ?thesis by (simp add: list_all_iff)
  qed
  from a b have "list_all (\<lambda>line. list_all (\<lambda>seg. intraSegment (spaced doc) seg
           \<and> (10 \<in> set (source block) \<or> intraSegment doc seg)) (segments line)) wrapped"
    by (simp add: list_all_iff)
  then show ?thesis unfolding out by (rule renumber_segments)
qed

lemma renderHeading_mapped:
  assumes st: "standsAt doc (sourceOffset block) (source block)"
    and lvl: "level block = headingMatch (source block)"
    and hm: "headingMatch (source block) \<noteq> None"
    and one: "markerSpaces (source block) = 1"
    and ret: "renderHeading block terminalWidth lineNo = Some (out, n)"
  shows "list_all (\<lambda>line. list_all (\<lambda>seg. decorative seg \<or> intraSegment doc seg)
           (segments line)) out"
proof -
  from hm obtain k where k: "headingMatch (source block) = Some k" by auto
  from headingMatch_hashes [OF k] have range: "1 \<le> k" "k \<le> 4" by auto
  from stripHeadingMarker_single [OF k one]
  have title: "stripHeadingMarker (source block) = drop (nat k + 1) (source block)"
    and len: "nat k + 1 \<le> length (source block)" by auto
  let ?prefix = "if k = 1 then str ''# '' else if k = 2 then str ''## ''
                    else if k = 3 then str ''### '' else str ''#### ''"
  let ?hstyle = "if k = 2 then MARKDOWN_STYLES_h2 else if k = 3 then MARKDOWN_STYLES_h3
                    else if k = 4 then MARKDOWN_STYLES_h4 else MARKDOWN_STYLES_h1"
  let ?title = "drop (nat k + 1) (source block)"
  let ?mark = "\<lparr> sourceOffset = sourceOffset block, sourceLength = int (length ?prefix),
              stext = ?prefix, style = ?hstyle\<lparr> dimColor := Some True \<rparr> \<rparr>"
  let ?segs = "?mark # parseInline ?title (sourceOffset block + int (length ?prefix)) ?hstyle"
  let ?Q = "\<lambda>seg. decorative seg \<or> intraSegment doc seg"
  from range have plen: "int (length ?prefix) = k + 1" by (auto simp: str_def)
  from ret lvl k range title obtain wrapped where
    w: "wordWrapSegments ?segs terminalWidth = Some wrapped"
    and out: "out = renumber wrapped lineNo"
    by (auto simp: renderHeading_def Let_def split: option.splits if_splits)
  from standsAt_drop [OF st len] len range
  have "standsAt doc (sourceOffset block + (k + 1)) ?title" by (simp add: add.commute)
  with plen have "standsAt doc (sourceOffset block + int (length ?prefix)) ?title" by simp
  from parseInline_intra [OF this]
  have c: "list_all (intraSegment doc)
     (parseInline ?title (sourceOffset block + int (length ?prefix)) ?hstyle)" .
  have d: "decorative ?mark" by (simp add: decorative_def)
  from c d have "list_all ?Q ?segs" by (simp add: list_all_iff)
  from wordWrapSegments_decorated [OF w this]
  have "list_all (\<lambda>line. list_all ?Q (segments line)) wrapped" .
  then show ?thesis unfolding out by (rule renumber_segments)
qed

lemma renderBlocksLoop_lines:
  assumes "renderBlocksLoop blocks terminalWidth lineNo = Some (Inr lines)"
    and "line \<in> set lines"
  shows "\<exists>block \<in> set blocks. \<exists>lineNo ls next.
           renderBlock block terminalWidth lineNo = Some (Inr (ls, next)) \<and> line \<in> set ls"
  using assms
proof (induction blocks arbitrary: lineNo lines)
  case Nil
  then show ?case by simp
next
  case (Cons block rest)
  from Cons.prems(1) obtain ls n others where
    b: "renderBlock block terminalWidth lineNo = Some (Inr (ls, n))"
    and r: "renderBlocksLoop rest terminalWidth n = Some (Inr others)"
    and l: "lines = ls @ others"
    by (auto split: option.splits sum.splits prod.splits)
  from Cons.prems(2) l consider "line \<in> set ls" | "line \<in> set others" by auto
  then show ?case
  proof cases
    case 1
    with b show ?thesis by auto
  next
    case 2
    from Cons.IH [OF r 2] show ?thesis by auto
  qed
qed

lemma mapped_exact:
  "btype block = Blank \<or> btype block = CodeBlock \<Longrightarrow> mapped doc block = intraSegment doc"
  by (rule ext) (auto simp: mapped_def)

lemma mapped_paragraph:
  "btype block = Paragraph \<Longrightarrow>
   mapped doc block = (\<lambda>seg. intraSegment (spaced doc) seg
           \<and> (10 \<in> set (source block) \<or> intraSegment doc seg))"
  by (rule ext) (simp add: mapped_def)

lemma mapped_decorated:
  "btype block = ListBlock \<or> btype block = Blockquote \<Longrightarrow>
   mapped doc block = (\<lambda>seg. decorative seg \<or> intraSegment doc seg)"
  by (rule ext) (auto simp: mapped_def)

lemma renderBlock_mapped:
  assumes st: "standsAt doc (sourceOffset block) (source block)"
    and hd: "btype block = Heading \<longrightarrow>
       level block = headingMatch (source block) \<and> headingMatch (source block) \<noteq> None"
    and ret: "renderBlock block terminalWidth lineNo = Some (Inr (ls, n))"
  shows "list_all (\<lambda>line. list_all (mapped doc block) (segments line)) ls"
proof (cases "btype block")
  case Blank
  with ret have "ls = [blankLine block lineNo]" by (simp add: renderBlock_def)
  with Blank show ?thesis
    by (simp add: mapped_def blankLine_def intraSegment_empty)
next
  case Hr
  with ret have "renderHr block terminalWidth lineNo = Inr (ls, n)" by (simp add: renderBlock_def)
  with Hr show ?thesis
    by (auto simp: mapped_def renderHr_def Let_def decorative_def split: if_splits)
next
  case CodeBlock
  with ret have ls: "ls = fst (renderCodeLines (splitLines (source block)) (sourceOffset block) lineNo)"
    by (auto simp: renderBlock_def)
  from st have "standsAt doc (sourceOffset block) (joinLines (splitLines (source block)))"
    by (simp add: joinLines_splitLines)
  from renderCodeLines_mapped [OF joinLines_linesAt [OF this], of lineNo] ls CodeBlock
  show ?thesis by (simp add: mapped_exact)
next
  case Blockquote
  with ret have r: "renderQuoteLines (splitLines (source block)) terminalWidth
      (sourceOffset block) lineNo = Some (ls, n)"
    by (auto simp: renderBlock_def)
  from st have "standsAt doc (sourceOffset block) (joinLines (splitLines (source block)))"
    by (simp add: joinLines_splitLines)
  from renderQuoteLines_mapped [OF joinLines_linesAt [OF this] r] Blockquote
  show ?thesis by (simp add: mapped_decorated)
next
  case ListBlock
  with ret have r: "renderListLines (splitLines (source block)) (ordered block = Some True)
      terminalWidth (sourceOffset block) 1 lineNo = Some (ls, n)"
    by (auto simp: renderBlock_def)
  from st have "standsAt doc (sourceOffset block) (joinLines (splitLines (source block)))"
    by (simp add: joinLines_splitLines)
  from renderListLines_mapped [OF joinLines_linesAt [OF this] r] ListBlock
  show ?thesis by (simp add: mapped_decorated)
next
  case Paragraph
  with ret have r: "renderParagraph block terminalWidth lineNo = Some (ls, n)"
    by (auto simp: renderBlock_def)
  from renderParagraph_mapped [OF st r] Paragraph show ?thesis by (simp add: mapped_paragraph)
next
  case Heading
  with ret have r: "renderHeading block terminalWidth lineNo = Some (ls, n)"
    by (auto simp: renderBlock_def)
  show ?thesis
  proof (cases "markerSpaces (source block) = 1")
    case True
    from hd Heading have lvl: "level block = headingMatch (source block)"
      and hm: "headingMatch (source block) \<noteq> None" by auto
    from renderHeading_mapped [OF st lvl hm True r]
    have "list_all (\<lambda>line. list_all (\<lambda>seg. decorative seg \<or> intraSegment doc seg)
           (segments line)) ls" .
    with Heading show ?thesis by (simp add: mapped_def list_all_iff)
  next
    case False
    with Heading show ?thesis by (simp add: mapped_def list_all_iff)
  qed
qed

lemma renderBlocks_mapped:
  assumes "renderBlocks (parseBlocks doc) terminalWidth = Some (Inr lines)"
  shows "list_all (\<lambda>line. \<exists>block \<in> set (parseBlocks doc).
             (\<exists>lineNo ls next. renderBlock block terminalWidth lineNo = Some (Inr (ls, next))
                \<and> line \<in> set ls)
             \<and> list_all (mapped doc block) (segments line)) lines"
  unfolding list_all_iff
proof
  fix line assume "line \<in> set lines"
  from renderBlocksLoop_lines [OF assms [unfolded renderBlocks_def] this]
  obtain block lineNo ls n where b: "block \<in> set (parseBlocks doc)"
    and r: "renderBlock block terminalWidth lineNo = Some (Inr (ls, n))"
    and l: "line \<in> set ls" by blast
  from parseBlocksLoop_heading [of "splitLines doc" 0] b
  have hd: "btype block = Heading \<longrightarrow>
       level block = headingMatch (source block) \<and> headingMatch (source block) \<noteq> None"
    by (simp add: parseBlocks_def list_all_iff)
  from renderBlock_mapped [OF parseBlocks_standsAt [OF b] hd r] l
  have "\<forall>seg \<in> set (segments line). mapped doc block seg" by (simp add: list_all_iff)
  with b r l
  show "\<exists>block \<in> set (parseBlocks doc).
             (\<exists>lineNo ls next. renderBlock block terminalWidth lineNo = Some (Inr (ls, next))
                \<and> line \<in> set ls)
             \<and> (\<forall>seg \<in> set (segments line). mapped doc block seg)" by blast
qed

text \<open>
  The segments that \<open>parseInline\<close> returns keep \<open>dimColor\<close> of the base style and have a
  \<open>type\<close>: that of the span, or that of the base style, or \<open>body\<close>.
\<close>

definition contentOf :: "SegmentStyle \<Rightarrow> LineSegment \<Rightarrow> bool" where
  "contentOf baseStyle seg \<longleftrightarrow>
     dimColor (style seg) = dimColor baseStyle
     \<and> (stype (style seg) = Some TyBold \<or> stype (style seg) = Some TyItalic
        \<or> stype (style seg) = Some TyCode \<or> stype (style seg) = Some TyLink
        \<or> stype (style seg) = Some (case stype baseStyle of None \<Rightarrow> TyBody | Some ty \<Rightarrow> ty))"

lemma plainSegment_content: "contentOf baseStyle (plainSegment t offset baseStyle)"
  by (simp add: contentOf_def plainSegment_def)

lemma spanSegment_content: "contentOf baseStyle (spanSegment kind captured offset baseStyle)"
  by (cases kind)
    (simp_all add: contentOf_def spanSegment_def spread_def orElse_def MARKDOWN_STYLES_bold_def
      MARKDOWN_STYLES_italic_def MARKDOWN_STYLES_code_def MARKDOWN_STYLES_link_def emptyStyle_def)

lemma parseInlineLoop_content:
  "list_all (contentOf baseStyle) segs \<Longrightarrow>
   list_all (contentOf baseStyle) (snd (parseInlineLoop t baseOffset baseStyle lastEnd segs))"
proof (induction t baseOffset baseStyle lastEnd segs rule: parseInlineLoop.induct)
  case (1 t baseOffset baseStyle lastEnd segs)
  show ?case
  proof (cases "findMatch (drop lastEnd t) lastEnd")
    case None
    with "1.prems" show ?thesis by (simp add: parseInlineLoop.simps)
  next
    case (Some m)
    obtain index kind captured len where m: "m = (index, kind, captured, len)"
      by (cases m) auto
    let ?before = "if lastEnd < index
       then [plainSegment (slice t (int lastEnd) (int index)) (baseOffset + int lastEnd) baseStyle]
       else []"
    let ?span = "spanSegment kind captured (baseOffset + int index) baseStyle"
    from "1.prems" plainSegment_content spanSegment_content
    have "list_all (contentOf baseStyle) (segs @ ?before @ [?span])" by simp
    from "1.IH" [OF Some [unfolded m] refl refl refl this] Some m
    show ?thesis by (subst parseInlineLoop.simps) simp
  qed
qed

lemma parseInline_content:
  "list_all (contentOf baseStyle) (parseInline t baseOffset baseStyle)"
proof -
  obtain lastEnd matched where l: "parseInlineLoop t baseOffset baseStyle 0 [] = (lastEnd, matched)"
    by (cases "parseInlineLoop t baseOffset baseStyle 0 []") auto
  from parseInlineLoop_content [of baseStyle "[]" t baseOffset 0] l
  have m: "list_all (contentOf baseStyle) matched" by simp
  from m l plainSegment_content show ?thesis by (simp add: parseInline_def Let_def)
qed

lemma content_not_decorative:
  assumes "contentStyle baseStyle" and "contentOf baseStyle seg"
  shows "\<not> decorative seg"
proof
  assume d: "decorative seg"
  from assms(1) have base: "dimColor baseStyle = None \<or> stype baseStyle = Some TyBlockquote"
    unfolding contentStyle_def
    by (elim disjE)
      (simp_all add: MARKDOWN_STYLES_h1_def MARKDOWN_STYLES_h2_def MARKDOWN_STYLES_h3_def
        MARKDOWN_STYLES_h4_def MARKDOWN_STYLES_blockquote_def emptyStyle_def)
  from assms(2) have st: "stype (style seg) \<noteq> None" by (auto simp: contentOf_def)
  from assms(2) base have hd: "dimColor (style seg) = Some True \<Longrightarrow>
      stype (style seg) \<noteq> Some TyH1 \<and> stype (style seg) \<noteq> Some TyH2
      \<and> stype (style seg) \<noteq> Some TyH3 \<and> stype (style seg) \<noteq> Some TyH4"
    by (auto simp: contentOf_def)
  from d have "stype (style seg) = None
     \<or> (dimColor (style seg) = Some True
        \<and> (stype (style seg) = Some TyH1 \<or> stype (style seg) = Some TyH2
           \<or> stype (style seg) = Some TyH3 \<or> stype (style seg) = Some TyH4))"
    unfolding decorative_def
    by (elim disjE)
      (simp_all add: MARKDOWN_STYLES_h1_def MARKDOWN_STYLES_h2_def MARKDOWN_STYLES_h3_def
        MARKDOWN_STYLES_h4_def emptyStyle_def)
  with st hd show False by auto
qed

lemma parseInline_not_decorative:
  assumes "contentStyle baseStyle"
  shows "list_all (\<lambda>seg. \<not> decorative seg) (parseInline t baseOffset baseStyle)"
  using parseInline_content [of baseStyle t baseOffset] content_not_decorative [OF assms]
  by (auto simp: list_all_iff)

text \<open>
  The heading branch takes the length of the prefix it shows (the hashes and one space) for
  the length of the marker it strips (the hashes and all the white space after them), while
  the list and quote branches measure what they strip. With two spaces after the hash the
  title \<open>Hi\<close> gets the offset 2 and stands at 3.
\<close>

lemma heading_marker_offset:
  "renderBlocks (parseBlocks (str ''#  Hi'')) 80 =
     Some (Inr [\<lparr> sourceOffset = 0, sourceLength = 4, lineNumber = 1,
                   segments = [\<lparr> sourceOffset = 0, sourceLength = 2, stext = str ''# '',
                                 style = MARKDOWN_STYLES_h1\<lparr> dimColor := Some True \<rparr> \<rparr>,
                               \<lparr> sourceOffset = 2, sourceLength = 2, stext = str ''Hi'',
                                 style = MARKDOWN_STYLES_h1 \<rparr>],
                   indent = 0, isBlank = False \<rparr>])
   \<and> \<not> intraSegment (str ''#  Hi'')
         \<lparr> sourceOffset = 2, sourceLength = 2, stext = str ''Hi'', style = MARKDOWN_STYLES_h1 \<rparr>
   \<and> standsAt (str ''#  Hi'') 3 (str ''Hi'')"
proof (intro conjI)
  show "renderBlocks (parseBlocks (str ''#  Hi'')) 80 =
     Some (Inr [\<lparr> sourceOffset = 0, sourceLength = 4, lineNumber = 1,
                   segments = [\<lparr> sourceOffset = 0, sourceLength = 2, stext = str ''# '',
                                 style = MARKDOWN_STYLES_h1\<lparr> dimColor := Some True \<rparr> \<rparr>,
                               \<lparr> sourceOffset = 2, sourceLength = 2, stext = str ''Hi'',
                                 style = MARKDOWN_STYLES_h1 \<rparr>],
                   indent = 0, isBlank = False \<rparr>])"
    by (simp add: blocks_eval render_eval wordWrap_eval inline_eval cong: option.case_cong_weak)
  show "\<not> intraSegment (str ''#  Hi'')
         \<lparr> sourceOffset = 2, sourceLength = 2, stext = str ''Hi'', style = MARKDOWN_STYLES_h1 \<rparr>"
    by (simp add: intraSegment_def standsAt_def str_def upt_rec)
  show "standsAt (str ''#  Hi'') 3 (str ''Hi'')"
    by (simp add: standsAt_def str_def upt_rec)
qed

section \<open>Facts about the overlays\<close>

text \<open>
  The characters of a segment, each with the source offset it stands for.
\<close>

definition sourceChars :: "LineSegment \<Rightarrow> (jchar \<times> int) list" where
  "sourceChars segment =
     zip (stext segment)
       (map (\<lambda>i. sourceOffset segment + int i) [0..<length (stext segment)])"

lemma slice_take_drop_general:
  "0 \<le> lo \<Longrightarrow> lo \<le> hi \<Longrightarrow> slice s lo hi = take (nat (hi - lo)) (drop (nat lo) s)"
  by (auto simp: slice_def Let_def min_def)

lemma upt_shift: "map (\<lambda>i. c + int i) [k..<k + m] = map (\<lambda>i. c + int k + int i) [0..<m]"
  by (induction m) (auto simp: add.assoc)

lemma sourceChars_piece:
  assumes "0 \<le> lo" and "lo \<le> hi"
  shows "sourceChars (piece segment lo hi) = take (nat (hi - lo)) (drop (nat lo) (sourceChars segment))"
proof -
  let ?t = "stext segment"
  let ?n = "length ?t"
  let ?k = "nat lo"
  let ?m = "length (take (nat (hi - lo)) (drop ?k ?t))"
  have tx: "stext (piece segment lo hi) = take (nat (hi - lo)) (drop ?k ?t)"
    using assms by (simp add: piece_def slice_take_drop_general)
  have off: "sourceOffset (piece segment lo hi) = sourceOffset segment + lo"
    by (simp add: piece_def)
  have m: "?m = min (nat (hi - lo)) (?n - ?k)" by simp
  have "take (nat (hi - lo)) [?k..<?n] = [?k..<?k + ?m]"
  proof (cases "?k + nat (hi - lo) \<le> ?n")
    case True
    then have "?m = nat (hi - lo)" by simp
    with True take_upt [of ?k "nat (hi - lo)" ?n] show ?thesis by (simp only:)
  next
    case False
    then have "take (nat (hi - lo)) [?k..<?n] = [?k..<?n]" by simp
    moreover from False have "?k + ?m = ?n \<or> (?n \<le> ?k \<and> ?m = 0)" by auto
    ultimately show ?thesis by auto
  qed
  then have "take (nat (hi - lo)) (drop ?k (map (\<lambda>i. sourceOffset segment + int i) [0..<?n]))
      = map (\<lambda>i. sourceOffset segment + int i) [?k..<?k + ?m]"
    by (simp add: drop_map take_map del: length_take length_drop)
  also have "\<dots> = map (\<lambda>i. sourceOffset segment + int ?k + int i) [0..<?m]"
    by (rule upt_shift)
  finally have idx: "take (nat (hi - lo)) (drop ?k (map (\<lambda>i. sourceOffset segment + int i) [0..<?n]))
      = map (\<lambda>i. sourceOffset segment + lo + int i) [0..<?m]"
    using assms(1) by simp
  show ?thesis
    unfolding sourceChars_def tx off
    by (simp only: drop_zip take_zip idx)
qed

lemma sourceChars_style: "sourceChars (segment\<lparr> style := st \<rparr>) = sourceChars segment"
  by (simp add: sourceChars_def)

lemma length_sourceChars: "length (sourceChars segment) = length (stext segment)"
  by (simp add: sourceChars_def)

lemma map_fst_sourceChars: "map fst (sourceChars segment) = stext segment"
  by (simp add: sourceChars_def)

lemma take_drop_chain:
  "a \<le> b \<Longrightarrow> take (b - a) (drop a xs) @ drop b xs = drop a xs"
  by (metis add_diff_inverse_nat append_take_drop_id drop_drop not_less add.commute)

text \<open>
  The diff ranges that reach a segment, in the order in which the loop takes them: each
  ends after the start of the segment, does not end before it starts, and ends no later
  than the next one starts.
\<close>

fun chained :: "int \<Rightarrow> DocumentDiff list \<Rightarrow> bool" where
  "chained segStart [] = True"
| "chained segStart [d] = (segStart < endOffset d \<and> startOffset d \<le> endOffset d)"
| "chained segStart (d # d' # ds) =
     (segStart < endOffset d \<and> startOffset d \<le> endOffset d
      \<and> endOffset d \<le> startOffset d' \<and> chained segStart (d' # ds))"

lemma chained_head:
  "chained segStart (d # ds) \<Longrightarrow> segStart < endOffset d \<and> startOffset d \<le> endOffset d"
  by (cases ds) auto

lemma chained_tail: "chained segStart (d # ds) \<Longrightarrow> chained segStart ds"
  by (cases ds) auto

lemma splitAtDiffs_chars:
  assumes "chained (sourceOffset segment) ds" and "0 \<le> textPos"
    and "ds \<noteq> [] \<longrightarrow> textPos \<le> max 0 (startOffset (hd ds) - sourceOffset segment)"
  shows "concat (map sourceChars (splitAtDiffs segment ds textPos))
         = drop (nat textPos) (sourceChars segment)"
  using assms
proof (induction ds arbitrary: textPos)
  case Nil
  let ?n = "int (length (stext segment))"
  show ?case
  proof (cases "textPos < ?n")
    case True
    with Nil.prems(2) sourceChars_piece [of textPos ?n segment]
    show ?thesis by (simp add: length_sourceChars)
  next
    case False
    then show ?thesis by (simp add: length_sourceChars)
  qed
next
  case (Cons d ds)
  let ?S = "sourceOffset segment"
  let ?n = "int (length (stext segment))"
  let ?C = "sourceChars segment"
  let ?a = "max 0 (startOffset d - ?S)"
  let ?b = "min ?n (endOffset d - ?S)"
  from chained_head [OF Cons.prems(1)]
  have e: "?S < endOffset d" and se: "startOffset d \<le> endOffset d" by auto
  from Cons.prems(3) have ta: "textPos \<le> ?a" by simp
  from e have b0: "0 \<le> ?b" by simp
  have nxt: "ds \<noteq> [] \<longrightarrow> ?b \<le> max 0 (startOffset (hd ds) - ?S)"
  proof
    assume "ds \<noteq> []"
    then obtain d' ds' where "ds = d' # ds'" by (cases ds) auto
    with Cons.prems(1) have "endOffset d \<le> startOffset d'" by simp
    with \<open>ds = d' # ds'\<close> show "?b \<le> max 0 (startOffset (hd ds) - ?S)" by simp
  qed
  from Cons.IH [OF chained_tail [OF Cons.prems(1)] b0 nxt]
  have rest: "concat (map sourceChars (splitAtDiffs segment ds ?b)) = drop (nat ?b) ?C" .
  have before: "concat (map sourceChars
      (if ?a > textPos then [piece segment textPos ?a] else []))
      = take (nat ?a - nat textPos) (drop (nat textPos) ?C)"
    using Cons.prems(2) ta sourceChars_piece [of textPos ?a segment]
    by (auto simp: nat_diff_distrib)
  have region: "concat (map sourceChars
      (if ?b > ?a then [(piece segment ?a ?b)
          \<lparr> style := spread (style segment) (DIFF_STYLES (dtype d)) \<rparr>] else []))
      @ drop (nat ?b) ?C = drop (nat ?a) ?C"
  proof (cases "?b > ?a")
    case True
    have "0 \<le> ?a" by simp
    from sourceChars_piece [OF this, of ?b segment] True
    have "sourceChars (piece segment ?a ?b) = take (nat ?b - nat ?a) (drop (nat ?a) ?C)"
      by (simp add: nat_diff_distrib)
    moreover from True have "?a \<le> ?b" by linarith
    then have "nat ?a \<le> nat ?b" by (rule nat_mono)
    ultimately show ?thesis using True
      by (simp only: if_True list.map concat.simps append_Nil2 sourceChars_style take_drop_chain)
  next
    case False
    with se e have "?a = ?b \<or> ?n \<le> ?a" by linarith
    then have "drop (nat ?b) ?C = drop (nat ?a) ?C"
    proof
      assume "?a = ?b" then show ?thesis by simp
    next
      assume na: "?n \<le> ?a"
      with e se have "?b = ?n" by linarith
      with na show ?thesis by (simp only: length_sourceChars drop_all nat_mono nat_int)
    qed
    with False show ?thesis
      by (simp only: if_False list.map concat.simps append_Nil)
  qed
  have "nat textPos \<le> nat ?a" using ta by simp
  from take_drop_chain [OF this, of ?C]
  have chain: "take (nat ?a - nat textPos) (drop (nat textPos) ?C) @ drop (nat ?a) ?C
      = drop (nat textPos) ?C" .
  have "concat (map sourceChars (splitAtDiffs segment (d # ds) textPos))
      = concat (map sourceChars (if ?a > textPos then [piece segment textPos ?a] else []))
        @ (concat (map sourceChars
            (if ?b > ?a then [(piece segment ?a ?b)
                \<lparr> style := spread (style segment) (DIFF_STYLES (dtype d)) \<rparr>] else []))
           @ concat (map sourceChars (splitAtDiffs segment ds ?b)))"
    by (simp add: Let_def)
  also have "\<dots> = drop (nat textPos) ?C"
    unfolding rest region before by (rule chain)
  finally show ?case .
qed

text \<open>
  A list of diff ranges in source order that do not overlap one another: no range ends
  before it starts, and each ends no later than the ranges after it start.
\<close>

definition disjointDiffs :: "DocumentDiff list \<Rightarrow> bool" where
  "disjointDiffs diffs \<longleftrightarrow>
     sorted_wrt (\<lambda>d d'. endOffset d \<le> startOffset d') diffs
     \<and> list_all (\<lambda>d. startOffset d \<le> endOffset d) diffs"

lemma chained_if_disjoint:
  assumes "sorted_wrt (\<lambda>d d'. endOffset d \<le> startOffset d') ds"
    and "list_all (\<lambda>d. startOffset d \<le> endOffset d \<and> segStart < endOffset d) ds"
  shows "chained segStart ds"
  using assms by (induction segStart ds rule: chained.induct) auto

lemma sorted_if_disjoint:
  assumes "sorted_wrt (\<lambda>d d'. endOffset d \<le> startOffset d') ds"
    and "list_all (\<lambda>d. startOffset d \<le> endOffset d) ds"
  shows "sorted (map startOffset ds)"
  using assms
proof (induction ds)
  case Nil
  show ?case by simp
next
  case (Cons d ds)
  then have "\<forall>d' \<in> set ds. startOffset d \<le> startOffset d'"
    by (auto simp: list_all_iff) 
  with Cons show ?case by auto
qed

lemma applyDiffsSegment_chars:
  assumes "disjointDiffs diffs"
  shows "concat (map sourceChars (applyDiffsSegment segment diffs)) = sourceChars segment"
proof -
  let ?S = "sourceOffset segment"
  let ?E = "sourceOffset segment + sourceLength segment"
  let ?ov = "filter (\<lambda>d. startOffset d < ?E \<and> endOffset d > ?S) diffs"
  from assms have sw: "sorted_wrt (\<lambda>d d'. endOffset d \<le> startOffset d') ?ov"
    by (simp add: disjointDiffs_def sorted_wrt_filter)
  from assms have wf: "list_all (\<lambda>d. startOffset d \<le> endOffset d) ?ov"
    by (auto simp: disjointDiffs_def list_all_iff)
  then have wf': "list_all (\<lambda>d. startOffset d \<le> endOffset d \<and> ?S < endOffset d) ?ov"
    by (auto simp: list_all_iff)
  from sort_key_id_if_sorted [OF sorted_if_disjoint [OF sw wf]]
  have srt: "sort_key startOffset ?ov = ?ov" .
  show ?thesis
  proof (cases "?ov = []")
    case True
    then show ?thesis by (simp add: applyDiffsSegment_def Let_def)
  next
    case False
    from splitAtDiffs_chars [OF chained_if_disjoint [OF sw wf'], of 0]
    have "concat (map sourceChars (splitAtDiffs segment ?ov 0)) = sourceChars segment" by simp
    with False srt show ?thesis by (simp add: applyDiffsSegment_def Let_def)
  qed
qed

lemma applySelectionSegment_chars:
  "concat (map sourceChars (applySelectionSegment segment s e)) = sourceChars segment"
proof -
  define n where "n = int (length (stext segment))"
  define a where "a = max 0 (s - sourceOffset segment)"
  define b where "b = min n (e - sourceOffset segment)"
  let ?C = "sourceChars segment"
  have unfolded: "applySelectionSegment segment s e =
     (if e \<le> sourceOffset segment \<or> s \<ge> sourceOffset segment + sourceLength segment
      then [segment]
      else if b \<le> a then [segment]
      else (if a > 0 then [piece segment 0 a] else [])
         @ (if length (slice (stext segment) a b) > 0
            then [(piece segment a b)\<lparr> style := spread (style segment) SELECTION_STYLE \<rparr>]
            else [])
         @ (if b < n then [piece segment b n] else []))"
    by (simp only: applySelectionSegment_def Let_def a_def b_def n_def)
  have a0: "0 \<le> a" by (simp add: a_def)
  have bn: "b \<le> n" by (simp add: b_def)
  have len: "length ?C = nat n" by (simp add: length_sourceChars n_def)
  show ?thesis
  proof (cases "e \<le> sourceOffset segment \<or> s \<ge> sourceOffset segment + sourceLength segment
      \<or> b \<le> a")
    case True
    then show ?thesis unfolding unfolded by auto
  next
    case False
    then have ab: "a < b" by auto
    have p1: "concat (map sourceChars (if a > 0 then [piece segment 0 a] else []))
        = take (nat a) ?C"
      using sourceChars_piece [of 0 a segment] a0 by auto
    from a0 ab have "nat (b - a) = nat b - nat a" by (simp add: nat_diff_distrib)
    with sourceChars_piece [OF a0, of b segment] ab
    have p2: "sourceChars (piece segment a b) = take (nat b - nat a) (drop (nat a) ?C)"
      by simp
    have nonempty: "length (slice (stext segment) a b) > 0"
      using ab bn a0 by (simp add: slice_take_drop_general n_def)
    have p3: "concat (map sourceChars (if b < n then [piece segment b n] else []))
        = drop (nat b) ?C"
    proof (cases "b < n")
      case True
      from ab a0 have "0 \<le> b" by linarith
      from sourceChars_piece [OF this, of n segment] True show ?thesis
        by (simp add: len)
    next
      case False
      with bn have "b = n" by simp
      then show ?thesis using False by (simp add: len)
    qed
    from ab have "nat a \<le> nat b" by simp
    from take_drop_chain [OF this, of ?C]
    have "take (nat a) ?C @ take (nat b - nat a) (drop (nat a) ?C) @ drop (nat b) ?C = ?C"
      by simp
    moreover from False nonempty have "applySelectionSegment segment s e =
        (if a > 0 then [piece segment 0 a] else [])
        @ [(piece segment a b)\<lparr> style := spread (style segment) SELECTION_STYLE \<rparr>]
        @ (if b < n then [piece segment b n] else [])"
      unfolding unfolded by auto
    ultimately show ?thesis
      using p1 p2 p3 by (simp add: sourceChars_style)
  qed
qed

lemma concat_map_chars:
  "(\<And>segment. concat (map sourceChars (f segment)) = sourceChars segment) \<Longrightarrow>
   concat (map sourceChars (concat (map f segs))) = concat (map sourceChars segs)"
  by (induction segs) auto

lemma applyDiffs_chars:
  "disjointDiffs diffs \<Longrightarrow>
   concat (map sourceChars (applyDiffs segs diffs)) = concat (map sourceChars segs)"
  by (simp add: applyDiffs_def concat_map_chars applyDiffsSegment_chars)

lemma applySelection_chars:
  "concat (map sourceChars (applySelection segs selectionStart selectionEnd))
   = concat (map sourceChars segs)"
  by (simp add: applySelection_def concat_map_chars applySelectionSegment_chars
      split: option.splits)

lemma overlays_keep_chars:
  assumes "disjointDiffs diffs"
  shows "concat (map sourceChars (applySelection (applyDiffs segs diffs) selectionStart selectionEnd))
         = concat (map sourceChars segs)
       \<and> concat (map stext (applySelection (applyDiffs segs diffs) selectionStart selectionEnd))
         = concat (map stext segs)"
proof -
  have c: "concat (map sourceChars (applySelection (applyDiffs segs diffs) selectionStart selectionEnd))
         = concat (map sourceChars segs)"
    by (simp add: applySelection_chars applyDiffs_chars [OF assms])
  have t: "\<And>ss. concat (map stext ss) = map fst (concat (map sourceChars ss))"
    by (simp add: map_concat comp_def map_fst_sourceChars)
  from c show ?thesis by (simp add: t)
qed

section \<open>Facts about the pointer resolution\<close>

lemma nearer_cases: "nearer key target p q = p \<or> nearer key target p q = q"
  by (simp add: nearer_def)

lemma foldl_nearer_min:
  "foldl (nearer key target) p qs \<in> set (p # qs)
   \<and> (\<forall>q \<in> set (p # qs).
         \<bar>key (foldl (nearer key target) p qs) - target\<bar> \<le> \<bar>key q - target\<bar>)"
proof (induction qs arbitrary: p)
  case Nil
  show ?case by simp
next
  case (Cons q qs)
  let ?n = "nearer key target p q"
  let ?r = "foldl (nearer key target) ?n qs"
  from Cons.IH [of ?n] have mem: "?r \<in> set (?n # qs)"
    and least: "\<forall>e \<in> set (?n # qs). \<bar>key ?r - target\<bar> \<le> \<bar>key e - target\<bar>" by auto
  have n: "\<bar>key ?n - target\<bar> \<le> \<bar>key p - target\<bar>" "\<bar>key ?n - target\<bar> \<le> \<bar>key q - target\<bar>"
    by (auto simp: nearer_def)
  from least have "\<bar>key ?r - target\<bar> \<le> \<bar>key ?n - target\<bar>" by simp
  with n have "\<bar>key ?r - target\<bar> \<le> \<bar>key p - target\<bar>" "\<bar>key ?r - target\<bar> \<le> \<bar>key q - target\<bar>"
    by auto
  moreover from mem nearer_cases [of key target p q] have "?r \<in> set (p # q # qs)" by auto
  ultimately show ?case using least by auto
qed

lemma foldl_nearer_first:
  assumes "sorted (p # qs)"
  shows "foldl (nearer id target) p qs \<in> set (p # qs)
   \<and> (\<forall>q \<in> set (p # qs).
         \<bar>foldl (nearer id target) p qs - target\<bar> < \<bar>q - target\<bar>
         \<or> (\<bar>foldl (nearer id target) p qs - target\<bar> = \<bar>q - target\<bar>
            \<and> foldl (nearer id target) p qs \<le> q))"
proof -
  define f where "f = nearer id target"
  have f: "\<And>a b. f a b = (if \<bar>b - target\<bar> < \<bar>a - target\<bar> then b else a)"
    by (simp add: f_def nearer_def)
  have "sorted (p # qs) \<Longrightarrow>
     foldl f p qs \<in> set (p # qs)
     \<and> (\<forall>q \<in> set (p # qs). \<bar>foldl f p qs - target\<bar> < \<bar>q - target\<bar>
           \<or> (\<bar>foldl f p qs - target\<bar> = \<bar>q - target\<bar> \<and> foldl f p qs \<le> q))"
  proof (induction qs arbitrary: p)
    case Nil
    show ?case by simp
  next
    case (Cons q qs)
    from Cons.prems have pq: "p \<le> q" and sq: "sorted (q # qs)" and sp: "sorted (p # qs)"
      by auto
    show ?case
    proof (cases "\<bar>q - target\<bar> < \<bar>p - target\<bar>")
      case True
      then have n: "f p q = q" by (simp add: f)
      let ?r = "foldl f q qs"
      from Cons.IH [OF sq] have mem: "?r \<in> set (q # qs)"
        and good: "\<forall>e \<in> set (q # qs). \<bar>?r - target\<bar> < \<bar>e - target\<bar>
            \<or> (\<bar>?r - target\<bar> = \<bar>e - target\<bar> \<and> ?r \<le> e)" by auto
      from good have "\<bar>?r - target\<bar> \<le> \<bar>q - target\<bar>" by auto
      with True have "\<bar>?r - target\<bar> < \<bar>p - target\<bar>" by simp
      with mem good show ?thesis unfolding foldl_Cons n by auto
    next
      case False
      then have n: "f p q = p" by (simp add: f)
      let ?r = "foldl f p qs"
      from Cons.IH [OF sp] have mem: "?r \<in> set (p # qs)"
        and good: "\<forall>e \<in> set (p # qs). \<bar>?r - target\<bar> < \<bar>e - target\<bar>
            \<or> (\<bar>?r - target\<bar> = \<bar>e - target\<bar> \<and> ?r \<le> e)" by auto
      from good
      have "\<bar>?r - target\<bar> < \<bar>p - target\<bar> \<or> (\<bar>?r - target\<bar> = \<bar>p - target\<bar> \<and> ?r \<le> p)"
        by simp
      with False pq
      have "\<bar>?r - target\<bar> < \<bar>q - target\<bar> \<or> (\<bar>?r - target\<bar> = \<bar>q - target\<bar> \<and> ?r \<le> q)"
        by auto
      with mem good show ?thesis unfolding foldl_Cons n by auto
    qed
  qed
  with assms show ?thesis by (simp add: f_def)
qed

lemma minOf_Min:
  assumes "xs \<noteq> []"
  shows "minOf xs = Min (set xs)"
proof -
  from assms obtain a as where xs: "xs = a # as" by (cases xs) auto
  have "minOf xs = fold min as a"
    by (simp add: xs minOf_def foldl_conv_fold min.commute)
  also have "\<dots> = Min (set (a # as))" by (rule Min.set_eq_fold [symmetric])
  finally show ?thesis by (simp only: xs)
qed

lemma maxOf_Max:
  assumes "xs \<noteq> []"
  shows "maxOf xs = Max (set xs)"
proof -
  from assms obtain a as where xs: "xs = a # as" by (cases xs) auto
  have "maxOf xs = fold max as a"
    by (simp add: xs maxOf_def foldl_conv_fold max.commute)
  also have "\<dots> = Max (set (a # as))" by (rule Max.set_eq_fold [symmetric])
  finally show ?thesis by (simp only: xs)
qed

lemma terminalToOffset_empty: "terminalToOffset px py [] = Inl TypeError"
  by (simp add: terminalToOffset_def reduce_def)

section \<open>Facts about the selection controller\<close>

lemma handleEvents_append:
  "handleEvents (evs @ evs') c =
     (case handleEvents evs c of Inl e \<Rightarrow> Inl e | Inr c' \<Rightarrow> handleEvents evs' c')"
  by (induction evs arbitrary: c) (auto split: sum.splits)

text \<open>The state of a drag that started at \<open>a\<close> and has its focus at \<open>f\<close>.\<close>

definition dragging :: "int \<Rightarrow> int \<Rightarrow> Controller \<Rightarrow> bool" where
  "dragging a f c \<longleftrightarrow>
     mouseDown c \<and> anchorOffset (selection c) = Some a
     \<and> startOffset (selection c) = Some (min a f) \<and> endOffset (selection c) = Some (max a f)"

lemma handleClick_dragging:
  assumes "enabled opts" and "resolve opts event = Inr (Some a)"
  shows "\<exists>c'. handleClick opts event c = Inr c' \<and> dragging a a c'
           \<and> notified c' = notified c"
  using assms by (simp add: handleClick_def resolve_def dragging_def)

lemma handleMove_dragging:
  assumes "dragging a f c" and "handleMove opts event c = Inr c'"
  shows "(\<exists>f'. dragging a f' c')
       \<and> (enabled opts \<and> resolve opts event = Inr (Some b) \<longrightarrow> dragging a b c')"
  using assms
  by (auto simp: handleMove_def resolve_def dragging_def Let_def
      split: if_splits sum.splits option.splits)

lemma moves_dragging:
  assumes "dragging a f c"
    and "handleEvents (map (\<lambda>(opts, event). (opts, Move event)) ms) c = Inr c'"
  shows "(\<exists>f'. dragging a f' c')
       \<and> (ms = [] \<longrightarrow> c' = c)
       \<and> (ms \<noteq> [] \<and> enabled (fst (last ms)) \<and> resolve (fst (last ms)) (snd (last ms)) = Inr (Some b)
            \<longrightarrow> dragging a b c')"
  using assms
proof (induction ms arbitrary: c' rule: rev_induct)
  case Nil
  then show ?case by auto
next
  case (snoc m ms)
  obtain opts event where m: "m = (opts, event)" by (cases m) auto
  from snoc.prems(2) obtain c1 where
    c1: "handleEvents (map (\<lambda>(opts, event). (opts, Move event)) ms) c = Inr c1"
    and last: "handleMove opts event c1 = Inr c'"
    by (auto simp: handleEvents_append m split: sum.splits)
  from snoc.IH [OF snoc.prems(1) c1] obtain f1 where "dragging a f1 c1" by blast
  from handleMove_dragging [OF this last, of b] show ?case by (simp add: m)
qed

lemma handleRelease_selection:
  assumes "handleRelease opts event c = Inr c'"
  shows "startOffset (selection c') = startOffset (selection c)
       \<and> endOffset (selection c') = endOffset (selection c)"
  using assms by (auto simp: handleRelease_def Let_def split: if_splits)

lemma handleEvent_normalized:
  assumes "normalized (selection c)" and "handleEvent opts ev c = Inr c'"
  shows "normalized (selection c')"
proof (cases ev)
  case (Press event)
  with assms show ?thesis
    by (auto simp: handleClick_def normalized_def split: if_splits sum.splits option.splits)
next
  case (Move event)
  with assms show ?thesis
    by (auto simp: handleMove_def normalized_def Let_def
        split: if_splits sum.splits option.splits)
next
  case (Release event)
  with assms(2) have "handleRelease opts event c = Inr c'" by simp
  from handleRelease_selection [OF this] assms(1) show ?thesis
    by (simp add: normalized_def)
qed

lemma handleEvents_normalized:
  assumes "normalized (selection c)" and "handleEvents evs c = Inr c'"
  shows "normalized (selection c')"
  using assms
proof (induction evs arbitrary: c)
  case Nil
  then show ?case by simp
next
  case (Cons ev evs)
  obtain opts event where ev: "ev = (opts, event)" by (cases ev) auto
  from Cons.prems(2) obtain c1 where c1: "handleEvent opts event c = Inr c1"
    and rest: "handleEvents evs c1 = Inr c'"
    by (auto simp: ev split: sum.splits)
  from Cons.IH [OF handleEvent_normalized [OF Cons.prems(1) c1] rest] show ?case .
qed

definition paired :: "SelectionState \<Rightarrow> bool" where
  "paired state \<longleftrightarrow> (startOffset state = None) = (endOffset state = None)"

lemma handleEvent_paired:
  assumes "paired (selection c)" and "handleEvent opts ev c = Inr c'"
  shows "paired (selection c')"
proof (cases ev)
  case (Press event)
  with assms show ?thesis
    by (auto simp: handleClick_def paired_def split: if_splits sum.splits option.splits)
next
  case (Move event)
  with assms show ?thesis
    by (auto simp: handleMove_def paired_def Let_def
        split: if_splits sum.splits option.splits)
next
  case (Release event)
  with assms(2) have "handleRelease opts event c = Inr c'" by simp
  from handleRelease_selection [OF this] assms(1) show ?thesis
    by (simp add: paired_def)
qed

lemma handleEvents_paired:
  assumes "paired (selection c)" and "handleEvents evs c = Inr c'"
  shows "paired (selection c')"
  using assms
proof (induction evs arbitrary: c)
  case Nil
  then show ?case by simp
next
  case (Cons ev evs)
  obtain opts event where ev: "ev = (opts, event)" by (cases ev) auto
  from Cons.prems(2) obtain c1 where c1: "handleEvent opts event c = Inr c1"
    and rest: "handleEvents evs c1 = Inr c'"
    by (auto simp: ev split: sum.splits)
  from Cons.IH [OF handleEvent_paired [OF Cons.prems(1) c1] rest] show ?case .
qed

lemma handleRelease_notified:
  assumes "paired (selection c)" and "enabled opts"
  shows "\<exists>c'. handleRelease opts event c = Inr c' \<and>
     (if startOffset (selection c) \<noteq> endOffset (selection c)
      then \<exists>d. notified c' = notified c @ [Some d]
             \<and> Some (startOffset d) = startOffset (selection c)
             \<and> Some (endOffset d) = endOffset (selection c)
      else notified c' = notified c)"
proof (cases "startOffset (selection c)")
  case None
  with assms(1) have "endOffset (selection c) = None" by (simp add: paired_def)
  with None assms(2) show ?thesis
    by (simp add: handleRelease_def getSelectionData_def Let_def)
next
  case (Some s)
  with assms(1) obtain e where e: "endOffset (selection c) = Some e"
    by (auto simp: paired_def)
  with Some assms(2) show ?thesis
    by (simp add: handleRelease_def getSelectionData_def Let_def)
qed

section \<open>The intra-segment mapping\<close>

text \<open>
  C1, as the code has it. The segments that \<open>parseInline\<close> returns for a text that stands in
  the source at the base offset satisfy the intra-segment mapping: for every index \<open>i\<close>
  below the length of the segment's text, the character of the source at
  \<open>sourceOffset + i\<close> is character \<open>i\<close> of the text. At every width of at least 1,
  \<open>wordWrapSegments\<close> returns and keeps the mapping: when its input segments satisfy it,
  so does every segment of every line it returns.

  \<open>renderBlocks(parseBlocks(content), width)\<close> returns at every width of at least 4, and at
  every width of at least 1 when the document has no rule, list or block quote. Whenever
  it returns, at any width, every line it returns is rendered from a block of the
  document, and every segment of the line satisfies the mapping, with two exceptions: the
  decorative segments (the marker of a heading, the glyphs of a rule, the bar of a block
  quote, the bullet or number of a list item), and, in a paragraph of several source lines,
  the positions where the source has a newline and the text a space. So the segments of
  blank lines, of code lines and of single-line paragraphs satisfy the mapping, the segments
  of a paragraph satisfy it at every position where the source has no newline, and every
  segment of a list item, of a quoted line and of a heading with one white-space character
  after its hashes is decorative or satisfies it. No segment that \<open>parseInline\<close> returns
  for one of the base styles of the renderer is decorative.
\<close>

theorem C1_intra_segment:
  "(standsAt doc baseOffset t \<longrightarrow>
      list_all (intraSegment doc) (parseInline t baseOffset baseStyle))
   \<and> (1 \<le> width \<and> list_all (intraSegment doc) segs \<longrightarrow>
        (\<exists>wrapped. wordWrapSegments segs width = Some wrapped
           \<and> list_all (\<lambda>line. list_all (intraSegment doc) (segments line)) wrapped))
   \<and> (4 \<le> width
        \<or> (1 \<le> width
            \<and> list_all (\<lambda>block. btype block = Blank \<or> btype block = Heading
                  \<or> btype block = CodeBlock \<or> btype block = Paragraph) (parseBlocks doc)) \<longrightarrow>
        (\<exists>rendered. renderBlocks (parseBlocks doc) width = Some (Inr rendered)))
   \<and> (renderBlocks (parseBlocks doc) width = Some (Inr lines) \<longrightarrow>
        list_all (\<lambda>line. \<exists>block \<in> set (parseBlocks doc).
            (\<exists>lineNo ls next. renderBlock block width lineNo = Some (Inr (ls, next))
               \<and> line \<in> set ls)
            \<and> list_all (mapped doc block) (segments line)) lines)
   \<and> (contentStyle baseStyle \<longrightarrow>
        list_all (\<lambda>segment. \<not> decorative segment) (parseInline t baseOffset baseStyle))"
proof (intro conjI impI)
  assume "standsAt doc baseOffset t"
  then show "list_all (intraSegment doc) (parseInline t baseOffset baseStyle)"
    by (rule parseInline_intra)
next
  assume a: "1 \<le> width \<and> list_all (intraSegment doc) segs"
  then have w: "1 \<le> width" and segs: "list_all (intraSegment doc) segs" by auto
  from wordWrapSegments_total [OF w, of segs]
  obtain wrapped where l: "wordWrapSegments segs width = Some wrapped" by blast
  from wordWrapSegments_intra [OF l segs] l
  show "\<exists>wrapped. wordWrapSegments segs width = Some wrapped
      \<and> list_all (\<lambda>line. list_all (intraSegment doc) (segments line)) wrapped" by blast
next
  assume "4 \<le> width
      \<or> (1 \<le> width
          \<and> list_all (\<lambda>block. btype block = Blank \<or> btype block = Heading
                \<or> btype block = CodeBlock \<or> btype block = Paragraph) (parseBlocks doc))"
  then show "\<exists>rendered. renderBlocks (parseBlocks doc) width = Some (Inr rendered)"
  proof
    assume "4 \<le> width"
    from renderBlocksLoop_total [OF this, of "parseBlocks doc" 1]
    show ?thesis by (simp add: renderBlocks_def)
  next
    assume a: "1 \<le> width
          \<and> list_all (\<lambda>block. btype block = Blank \<or> btype block = Heading
                \<or> btype block = CodeBlock \<or> btype block = Paragraph) (parseBlocks doc)"
    then have w: "1 \<le> width" by simp
    from a renderBlocksLoop_total_plain [OF w, of "parseBlocks doc" 1]
    show ?thesis by (simp add: renderBlocks_def)
  qed
next
  assume "renderBlocks (parseBlocks doc) width = Some (Inr lines)"
  then show "list_all (\<lambda>line. \<exists>block \<in> set (parseBlocks doc).
            (\<exists>lineNo ls next. renderBlock block width lineNo = Some (Inr (ls, next))
               \<and> line \<in> set ls)
            \<and> list_all (mapped doc block) (segments line)) lines"
    by (rule renderBlocks_mapped)
next
  assume "contentStyle baseStyle"
  then show "list_all (\<lambda>segment. \<not> decorative segment) (parseInline t baseOffset baseStyle)"
    by (rule parseInline_not_decorative)
qed

theorem C1_intra_segment_witness:
  "list_all (intraSegment (str ''**bold** text''))
     (parseInline (str ''**bold** text'') 0 emptyStyle)
   \<and> (\<exists>wrapped. wordWrapSegments (parseInline (str ''**bold** text'') 0 emptyStyle) 80
                 = Some wrapped
          \<and> list_all (\<lambda>line. list_all (intraSegment (str ''**bold** text'')) (segments line))
               wrapped)
   \<and> list_all (\<lambda>segment. \<not> decorative segment)
       (parseInline (str ''**bold** text'') 0 emptyStyle)
   \<and> (\<exists>lines. renderBlocks (parseBlocks (str ''# T'' @ 10 # 10 # str ''- a'' @ 10 # str ''> q'' @ 10 # str ''---'' @ 10 # str ''p'' @ 10 # str ''r'')) 80
                 = Some (Inr lines)
          \<and> list_all (\<lambda>line.
                \<exists>block \<in> set (parseBlocks (str ''# T'' @ 10 # 10 # str ''- a'' @ 10 # str ''> q'' @ 10 # str ''---'' @ 10 # str ''p'' @ 10 # str ''r'')).
                  (\<exists>lineNo ls next. renderBlock block 80 lineNo = Some (Inr (ls, next))
                     \<and> line \<in> set ls)
                  \<and> list_all (mapped (str ''# T'' @ 10 # 10 # str ''- a'' @ 10 # str ''> q'' @ 10 # str ''---'' @ 10 # str ''p'' @ 10 # str ''r'') block)
                       (segments line)) lines)
   \<and> markerSpaces (str ''# Hi'') = 1
   \<and> intraSegment (str ''# Hi'')
       \<lparr> sourceOffset = 2, sourceLength = 2, stext = str ''Hi'', style = MARKDOWN_STYLES_h1 \<rparr>"
proof -
  let ?b = "str ''**bold** text''"
  let ?d = "str ''# T'' @ 10 # 10 # str ''- a'' @ 10 # str ''> q'' @ 10 # str ''---'' @ 10 # str ''p'' @ 10 # str ''r''"
  let ?h = "str ''# Hi''"
  let ?mark = "\<lparr> sourceOffset = 0, sourceLength = 2, stext = str ''# '',
                 style = MARKDOWN_STYLES_h1\<lparr> dimColor := Some True \<rparr> \<rparr>"
  let ?title = "\<lparr> sourceOffset = 2, sourceLength = 2, stext = str ''Hi'',
                  style = MARKDOWN_STYLES_h1 \<rparr>"
  let ?line = "\<lparr> sourceOffset = 0, sourceLength = 4, lineNumber = 1,
                 segments = [?mark, ?title], indent = 0, isBlank = False \<rparr>"
  let ?block = "\<lparr> sourceOffset = 0, btype = Heading, source = ?h, level = Some 1,
                  ordered = None \<rparr>"
  have st: "standsAt ?b 0 ?b" by (simp add: standsAt_def list_all_iff)
  have cs: "contentStyle emptyStyle" by (simp add: contentStyle_def)
  from C1_intra_segment [of ?b 0 ?b emptyStyle 80 "[]" "[]"] st
  have a: "list_all (intraSegment ?b) (parseInline ?b 0 emptyStyle)" by blast
  from C1_intra_segment [of ?b 0 "[]" emptyStyle 80 "parseInline ?b 0 emptyStyle" "[]"] a
  have b: "\<exists>wrapped. wordWrapSegments (parseInline ?b 0 emptyStyle) 80 = Some wrapped
          \<and> list_all (\<lambda>line. list_all (intraSegment ?b) (segments line)) wrapped" by simp
  from C1_intra_segment [of "[]" 0 ?b emptyStyle 80 "[]" "[]"] cs
  have c: "list_all (\<lambda>segment. \<not> decorative segment) (parseInline ?b 0 emptyStyle)" by blast
  from C1_intra_segment [of ?d 0 "[]" emptyStyle 80 "[]" "[]"]
  obtain rendered where r: "renderBlocks (parseBlocks ?d) 80 = Some (Inr rendered)" by auto
  from C1_intra_segment [of ?d 0 "[]" emptyStyle 80 "[]" rendered] r
  have d: "\<exists>lines. renderBlocks (parseBlocks ?d) 80 = Some (Inr lines)
          \<and> list_all (\<lambda>line. \<exists>block \<in> set (parseBlocks ?d).
                  (\<exists>lineNo ls next. renderBlock block 80 lineNo = Some (Inr (ls, next))
                     \<and> line \<in> set ls)
                  \<and> list_all (mapped ?d block) (segments line)) lines" by simp
  have one: "markerSpaces ?h = 1" by (simp add: markerSpaces_def str_def isWhitespace_def)
  have blocks: "parseBlocks ?h = [?block]" by (simp add: blocks_eval string_defs)
  have lines: "renderBlocks (parseBlocks ?h) 80 = Some (Inr [?line])"
    by (simp add: blocks_eval render_eval wordWrap_eval inline_eval cong: option.case_cong_weak)
  from C1_intra_segment [of ?h 0 "[]" emptyStyle 80 "[]" "[?line]"] lines
  have "list_all (\<lambda>line. \<exists>block \<in> set (parseBlocks ?h).
            (\<exists>lineNo ls next. renderBlock block 80 lineNo = Some (Inr (ls, next))
               \<and> line \<in> set ls)
            \<and> list_all (mapped ?h block) (segments line)) [?line]" by blast
  then have "mapped ?h ?block ?title" unfolding blocks by simp
  with one have "decorative ?title \<or> intraSegment ?h ?title" by (simp add: mapped_def)
  moreover have "\<not> decorative ?title"
    by (simp add: decorative_def MARKDOWN_STYLES_h1_def MARKDOWN_STYLES_h2_def
        MARKDOWN_STYLES_h3_def MARKDOWN_STYLES_h4_def emptyStyle_def)
  ultimately have e: "intraSegment ?h ?title" by simp
  from a b c d one e show ?thesis by simp
qed

text \<open>
  As the specification states it, the property fails for the renderer as a whole. A paragraph
  of several source lines is joined with spaces, so the segment \<open>"a b"\<close> of the source
  \<open>"a\nb"\<close> shows a space where the source has the newline; and the bullet of a list item
  is a glyph that the source does not contain.
\<close>

theorem C1_counterexample:
  "renderBlocks (parseBlocks (str ''a'' @ 10 # str ''b'')) 80 =
     Some (Inr [\<lparr> sourceOffset = 0, sourceLength = 3, lineNumber = 1,
                   segments = [\<lparr> sourceOffset = 0, sourceLength = 3, stext = str ''a b'',
                                 style = emptyStyle\<lparr> stype := Some TyBody \<rparr> \<rparr>],
                   indent = 0, isBlank = False \<rparr>])
   \<and> \<not> intraSegment (str ''a'' @ 10 # str ''b'')
         \<lparr> sourceOffset = 0, sourceLength = 3, stext = str ''a b'',
           style = emptyStyle\<lparr> stype := Some TyBody \<rparr> \<rparr>
   \<and> renderBlocks (parseBlocks (str ''- a'')) 80 =
     Some (Inr [\<lparr> sourceOffset = 0, sourceLength = 3, lineNumber = 1,
                   segments = [\<lparr> sourceOffset = 0, sourceLength = 2, stext = [8226, 32],
                                 style = emptyStyle\<lparr> color := Some ''cyan'' \<rparr> \<rparr>,
                               \<lparr> sourceOffset = 2, sourceLength = 1, stext = str ''a'',
                                 style = emptyStyle\<lparr> stype := Some TyBody \<rparr> \<rparr>],
                   indent = 0, isBlank = False \<rparr>])
   \<and> \<not> intraSegment (str ''- a'')
         \<lparr> sourceOffset = 0, sourceLength = 2, stext = [8226, 32],
           style = emptyStyle\<lparr> color := Some ''cyan'' \<rparr> \<rparr>"
proof (intro conjI)
  show "renderBlocks (parseBlocks (str ''a'' @ 10 # str ''b'')) 80 =
     Some (Inr [\<lparr> sourceOffset = 0, sourceLength = 3, lineNumber = 1,
                   segments = [\<lparr> sourceOffset = 0, sourceLength = 3, stext = str ''a b'',
                                 style = emptyStyle\<lparr> stype := Some TyBody \<rparr> \<rparr>],
                   indent = 0, isBlank = False \<rparr>])"
    by (simp add: blocks_eval render_eval wordWrap_eval inline_eval cong: option.case_cong_weak)
  show "\<not> intraSegment (str ''a'' @ 10 # str ''b'')
         \<lparr> sourceOffset = 0, sourceLength = 3, stext = str ''a b'',
           style = emptyStyle\<lparr> stype := Some TyBody \<rparr> \<rparr>"
    by (simp add: intraSegment_def standsAt_def str_def upt_rec)
  show "renderBlocks (parseBlocks (str ''- a'')) 80 =
     Some (Inr [\<lparr> sourceOffset = 0, sourceLength = 3, lineNumber = 1,
                   segments = [\<lparr> sourceOffset = 0, sourceLength = 2, stext = [8226, 32],
                                 style = emptyStyle\<lparr> color := Some ''cyan'' \<rparr> \<rparr>,
                               \<lparr> sourceOffset = 2, sourceLength = 1, stext = str ''a'',
                                 style = emptyStyle\<lparr> stype := Some TyBody \<rparr> \<rparr>],
                   indent = 0, isBlank = False \<rparr>])"
    by (simp add: blocks_eval render_eval wordWrap_eval inline_eval cong: option.case_cong_weak)
  show "\<not> intraSegment (str ''- a'')
         \<lparr> sourceOffset = 0, sourceLength = 2, stext = [8226, 32],
           style = emptyStyle\<lparr> color := Some ''cyan'' \<rparr> \<rparr>"
    by (simp add: intraSegment_def standsAt_def str_def upt_rec)
qed

section \<open>Span coverage of the blocks\<close>

text \<open>
  C2, as the code has it. For every input string, the source texts of the blocks that
  \<open>parseBlocks\<close> returns, joined with a newline between consecutive blocks, are the input
  string exactly. The blocks are in source order and do not overlap: the first starts at
  offset 0, each next one starts one character after the end of the one before (the
  newline between them belongs to no block), and the source text of each block is the
  slice of the input at its source offset.
\<close>

theorem C2_blocks_cover:
  "joinLines (map source (parseBlocks doc)) = doc
   \<and> contiguous 0 (parseBlocks doc)
   \<and> list_all (\<lambda>b. slice doc (sourceOffset b) (sourceOffset b + int (length (source b)))
                   = source b) (parseBlocks doc)"
proof -
  from parseBlocksLoop_spans [OF splitLines_nonempty, of doc 0]
  have j: "joinLines (map source (parseBlocks doc)) = doc"
    and c: "contiguous 0 (parseBlocks doc)"
    by (simp_all add: parseBlocks_def joinLines_splitLines)
  from c have "contiguous (int (length ([] :: jstring))) (parseBlocks doc)" by simp
  from contiguous_slices [OF this] j c show ?thesis by simp
qed

text \<open>
  Plain concatenation loses the newlines between the blocks: \<open>"# a\nb"\<close> gives a heading
  \<open>"# a"\<close> and a paragraph \<open>"b"\<close>.
\<close>

theorem C2_counterexample:
  "concat (map source (parseBlocks (str ''# a'' @ 10 # str ''b''))) \<noteq> str ''# a'' @ 10 # str ''b''"
  by (simp add: blocks_eval string_defs)

section \<open>Overlays on overlapping diff ranges\<close>

lemmas overlay_eval =
  applyDiffs_def applyDiffsSegment_def applySelection_def applySelectionSegment_def piece_def
  spread_def orElse_def emptyStyle_def SELECTION_STYLE_def

text \<open>
  C3 asks that \<open>applyDiffs\<close> followed by \<open>applySelection\<close> keeps the concatenated text of
  the segments. With two diff ranges that overlap each other the code does not: on the
  segment \<open>"abcdef"\<close> at offset 0, the ranges \<open>[0, 4)\<close> and \<open>[2, 6)\<close> give the pieces
  \<open>"abcd"\<close> and \<open>"cdef"\<close>, eight characters for six. The loop of \<open>applyDiffs\<close> slices the
  region of each range from the start of the range, not from its cursor \<open>textPos\<close>, which
  stands at 4 when the second range starts at 2.
\<close>

theorem C3_overlapping_diffs:
  "applySelection
     (applyDiffs
        [\<lparr> sourceOffset = 0, sourceLength = 6, stext = str ''abcdef'', style = emptyStyle \<rparr>]
        [\<lparr> startOffset = 0, endOffset = 4, dtype = Delete \<rparr>,
         \<lparr> startOffset = 2, endOffset = 6, dtype = Add \<rparr>])
     None None =
     [\<lparr> sourceOffset = 0, sourceLength = 4, stext = str ''abcd'',
        style = DIFF_STYLES Delete \<rparr>,
      \<lparr> sourceOffset = 2, sourceLength = 4, stext = str ''cdef'',
        style = DIFF_STYLES Add \<rparr>]
   \<and> concat (map stext
       (applySelection
          (applyDiffs
             [\<lparr> sourceOffset = 0, sourceLength = 6, stext = str ''abcdef'',
                style = emptyStyle \<rparr>]
             [\<lparr> startOffset = 0, endOffset = 4, dtype = Delete \<rparr>,
              \<lparr> startOffset = 2, endOffset = 6, dtype = Add \<rparr>])
          None None)) = str ''abcdcdef''"
  by (simp add: overlay_eval string_defs)

section \<open>Offsets of the inline parser\<close>

text \<open>
  C4, as the code has it. For the input \<open>"**bold** text"\<close> with base offset 0 the inline
  parser returns exactly two segments: \<open>"bold"\<close> at source offset 2 with source length 4 and
  the bold style, then \<open>" text"\<close> at source offset 8 with source length 5. In general, in
  every pass of the loop that finds a match at \<open>index\<close>, the segment pushed for it is in the
  result, the opening delimiter of the alternative stands at \<open>index\<close>, the segment's offset
  is the base offset plus \<open>index\<close> plus the length of that delimiter (2 for \<open>**\<close>, 1 for the
  others), its text is the captured content, which is the text right after the delimiter,
  and its source length is the length of that content.
\<close>

theorem C4_inline_offsets:
  "parseInline (str ''**bold** text'') 0 emptyStyle =
     [\<lparr> sourceOffset = 2, sourceLength = 4, stext = str ''bold'',
        style = MARKDOWN_STYLES_bold \<rparr>,
      \<lparr> sourceOffset = 8, sourceLength = 5, stext = str '' text'',
        style = emptyStyle\<lparr> stype := Some TyBody \<rparr> \<rparr>] \<and>
   (findMatch (drop lastEnd t) lastEnd = Some (index, kind, captured, len) \<longrightarrow>
      (let segment = spanSegment kind captured (baseOffset + int index) baseStyle
       in segment \<in> set (snd (parseInlineLoop t baseOffset baseStyle lastEnd segs)) \<and>
          startsWith (drop index t) (openingDelimiter kind) \<and>
          sourceOffset segment = baseOffset + int index + int (length (openingDelimiter kind)) \<and>
          stext segment = captured \<and>
          sourceLength segment = int (length captured) \<and>
          slice t (int index + int (length (openingDelimiter kind)))
            (int index + int (length (openingDelimiter kind)) + int (length captured))
            = captured))"
proof (intro conjI impI)
  show "parseInline (str ''**bold** text'') 0 emptyStyle =
     [\<lparr> sourceOffset = 2, sourceLength = 4, stext = str ''bold'',
        style = MARKDOWN_STYLES_bold \<rparr>,
      \<lparr> sourceOffset = 8, sourceLength = 5, stext = str '' text'',
        style = emptyStyle\<lparr> stype := Some TyBody \<rparr> \<rparr>]"
    by (simp add: inline_eval string_defs cong: option.case_cong_weak)
next
  assume fm: "findMatch (drop lastEnd t) lastEnd = Some (index, kind, captured, len)"
  let ?segment = "spanSegment kind captured (baseOffset + int index) baseStyle"
  let ?before = "if lastEnd < index
       then [plainSegment (slice t (int lastEnd) (int index)) (baseOffset + int lastEnd) baseStyle]
       else []"
  from findMatch_match [OF fm] have le: "lastEnd \<le> index"
    and m: "matchInline (drop index t) = Some (kind, captured, len)" by auto
  from matchInline_content [OF m]
  have sw: "startsWith (drop index t) (openingDelimiter kind)"
    and sk: "skipOf kind = int (length (openingDelimiter kind))"
    and tk: "take (length captured) (drop (nat (skipOf kind)) (drop index t)) = captured"
    by auto
  from parseInlineLoop_extends
    [of t baseOffset baseStyle "index + len" "segs @ ?before @ [?segment]"]
  obtain added where
    "snd (parseInlineLoop t baseOffset baseStyle (index + len) (segs @ ?before @ [?segment]))
       = (segs @ ?before @ [?segment]) @ added" by blast
  with fm have mem: "?segment \<in> set (snd (parseInlineLoop t baseOffset baseStyle lastEnd segs))"
    by (subst parseInlineLoop.simps) simp
  from tk sk have "take (length captured) (drop (index + length (openingDelimiter kind)) t) = captured"
    by (simp add: add.commute)
  from slice_take_drop [OF this refl]
  have sl: "slice t (int index + int (length (openingDelimiter kind)))
            (int index + int (length (openingDelimiter kind)) + int (length captured)) = captured"
    by simp
  show "let segment = ?segment
       in segment \<in> set (snd (parseInlineLoop t baseOffset baseStyle lastEnd segs)) \<and>
          startsWith (drop index t) (openingDelimiter kind) \<and>
          sourceOffset segment = baseOffset + int index + int (length (openingDelimiter kind)) \<and>
          stext segment = captured \<and>
          sourceLength segment = int (length captured) \<and>
          slice t (int index + int (length (openingDelimiter kind)))
            (int index + int (length (openingDelimiter kind)) + int (length captured))
            = captured"
    using mem sw sk sl by (simp add: Let_def spanSegment_def)
qed

theorem C4_inline_offsets_witness:
  "parseInline (str ''**bold** text'') 0 emptyStyle =
     [\<lparr> sourceOffset = 2, sourceLength = 4, stext = str ''bold'',
        style = MARKDOWN_STYLES_bold \<rparr>,
      \<lparr> sourceOffset = 8, sourceLength = 5, stext = str '' text'',
        style = emptyStyle\<lparr> stype := Some TyBody \<rparr> \<rparr>] \<and>
   findMatch (drop 0 (str ''**bold** text'')) 0 = Some (0, BoldSpan, str ''bold'', 8) \<and>
   (let segment = spanSegment BoldSpan (str ''bold'') (0 + int 0) emptyStyle
       in segment \<in> set (snd (parseInlineLoop (str ''**bold** text'') 0 emptyStyle 0 [])) \<and>
          startsWith (drop 0 (str ''**bold** text'')) (openingDelimiter BoldSpan) \<and>
          sourceOffset segment = 0 + int 0 + int (length (openingDelimiter BoldSpan)) \<and>
          stext segment = str ''bold'' \<and>
          sourceLength segment = int (length (str ''bold'')) \<and>
          slice (str ''**bold** text'') (int 0 + int (length (openingDelimiter BoldSpan)))
            (int 0 + int (length (openingDelimiter BoldSpan)) + int (length (str ''bold'')))
            = str ''bold'')"
proof -
  have fm: "findMatch (drop 0 (str ''**bold** text'')) 0 = Some (0, BoldSpan, str ''bold'', 8)"
    by (simp add: matchInline_def string_defs)
  from C4_inline_offsets [of 0 "str ''**bold** text''" 0 BoldSpan "str ''bold''" 8 0 emptyStyle "[]"] fm
  show ?thesis by blast
qed

text \<open>
  The plain text after \<open>**bold**\<close> starts at offset 8, where the loop's \<open>lastEnd\<close> stands,
  not at offset 9.
\<close>

theorem C4_counterexample:
  "map (\<lambda>s. (stext s, sourceOffset s, sourceLength s))
     (parseInline (str ''**bold** text'') 0 emptyStyle)
   \<noteq> [(str ''bold'', 2, 4), (str '' text'', 9, 5)]"
  by (simp add: inline_eval string_defs cong: option.case_cong_weak)

section \<open>Reflow of the example line\<close>

text \<open>
  C5. Word-wrapping \<open>"aaaa bbbb cccc"\<close> at width 9 gives exactly the lines \<open>"aaaa bbbb"\<close> and
  \<open>"cccc"\<close>, and \<open>wordWrapSegments\<close> on the segment of that text gives two rendered lines:
  the first covers the source offsets 0 to 8 (source length 9), the second starts at
  offset 10 with source length 4. The space at offset 9, where the line was broken, belongs
  to neither line.
\<close>

theorem C5_reflow_example:
  "wordWrap (str ''aaaa bbbb cccc'') 9 = Some [str ''aaaa bbbb'', str ''cccc''] \<and>
   wordWrapSegments (parseInline (str ''aaaa bbbb cccc'') 0 emptyStyle) 9 =
     Some [\<lparr> sourceOffset = 0, sourceLength = 9, lineNumber = 1,
              segments = [\<lparr> sourceOffset = 0, sourceLength = 9, stext = str ''aaaa bbbb'',
                            style = emptyStyle\<lparr> stype := Some TyBody \<rparr> \<rparr>],
              indent = 0, isBlank = False \<rparr>,
           \<lparr> sourceOffset = 10, sourceLength = 4, lineNumber = 2,
              segments = [\<lparr> sourceOffset = 10, sourceLength = 4, stext = str ''cccc'',
                            style = emptyStyle\<lparr> stype := Some TyBody \<rparr> \<rparr>],
              indent = 0, isBlank = False \<rparr>]"
  by (simp add: wordWrapSegments_def wordWrap_eval inline_eval cong: option.case_cong_weak)

section \<open>Resolving a pointer position\<close>

text \<open>
  C6. For every non-empty position map and every coordinate pair, \<open>terminalToOffset\<close>
  returns a source offset, never \<open>null\<close>. When an entry has exactly the row and column,
  the offset is that of the first such entry. Otherwise, when the row has entries, the
  offset is that of an entry of the row whose column is nearest to the pointer's.
  Otherwise the row nearest to the pointer's is chosen, the smaller row when two are
  equally near, and the offset is the least source offset of that row when the pointer is
  above it and the greatest when the pointer is below.
\<close>

theorem C6_terminalToOffset:
  assumes "pm \<noteq> []"
  shows "\<exists>off. terminalToOffset px py pm = Inr (Some off) \<and>
    (\<forall>exact. find (\<lambda>p. terminalRow p = py \<and> terminalCol p = px) pm = Some exact
        \<longrightarrow> off = sourceOffset exact) \<and>
    (find (\<lambda>p. terminalRow p = py \<and> terminalCol p = px) pm = None
       \<and> (\<exists>p \<in> set pm. terminalRow p = py) \<longrightarrow>
        (\<exists>p \<in> set pm. terminalRow p = py \<and> off = sourceOffset p \<and>
           (\<forall>q \<in> set pm. terminalRow q = py \<longrightarrow>
               \<bar>terminalCol p - px\<bar> \<le> \<bar>terminalCol q - px\<bar>))) \<and>
    ((\<forall>p \<in> set pm. terminalRow p \<noteq> py) \<longrightarrow>
        (\<exists>r \<in> terminalRow ` set pm.
           (\<forall>r' \<in> terminalRow ` set pm.
               \<bar>r - py\<bar> < \<bar>r' - py\<bar> \<or> (\<bar>r - py\<bar> = \<bar>r' - py\<bar> \<and> r \<le> r')) \<and>
           off = (if py < r then Min (sourceOffset ` {p \<in> set pm. terminalRow p = r})
                  else Max (sourceOffset ` {p \<in> set pm. terminalRow p = r}))))"
proof (cases "find (\<lambda>p. terminalRow p = py \<and> terminalCol p = px) pm")
  case (Some exact)
  then have "exact \<in> set pm" "terminalRow exact = py"
    by (auto simp: find_Some_iff)
  with Some show ?thesis by (auto simp: terminalToOffset_def)
next
  case None
  let ?rowEntries = "filter (\<lambda>p. terminalRow p = py) pm"
  show ?thesis
  proof (cases "?rowEntries = []")
    case False
    then obtain e es where row: "?rowEntries = e # es" by (cases ?rowEntries) auto
    let ?closest = "foldl (nearer terminalCol px) e es"
    from foldl_nearer_min [of terminalCol px e es]
    have mem: "?closest \<in> set ?rowEntries"
      and least: "\<forall>q \<in> set ?rowEntries.
         \<bar>terminalCol ?closest - px\<bar> \<le> \<bar>terminalCol q - px\<bar>"
      unfolding row by blast+
    have res: "terminalToOffset px py pm = Inr (Some (sourceOffset ?closest))"
      using None row by (simp add: terminalToOffset_def reduce_def)
    from mem have "?closest \<in> set pm" "terminalRow ?closest = py" by auto
    moreover from least have "\<forall>q \<in> set pm. terminalRow q = py \<longrightarrow>
        \<bar>terminalCol ?closest - px\<bar> \<le> \<bar>terminalCol q - px\<bar>" by simp
    ultimately show ?thesis using res None by auto
  next
    case True
    then have norow: "\<forall>p \<in> set pm. terminalRow p \<noteq> py"
      by (auto simp: filter_empty_conv)
    let ?rows = "sort (remdups (map terminalRow pm))"
    have rows_set: "set ?rows = terminalRow ` set pm" by simp
    from assms have "?rows \<noteq> []" by (metis rows_set empty_is_image set_empty)
    then obtain r0 rs where rows: "?rows = r0 # rs" by (cases ?rows) auto
    have "sorted ?rows" by simp
    then have srt: "sorted (r0 # rs)" by (simp only: rows)
    let ?closestRow = "foldl (nearer id py) r0 rs"
    from foldl_nearer_first [OF srt, of py]
    have mem: "?closestRow \<in> set (r0 # rs)"
      and first: "\<forall>q \<in> set (r0 # rs). \<bar>?closestRow - py\<bar> < \<bar>q - py\<bar>
          \<or> (\<bar>?closestRow - py\<bar> = \<bar>q - py\<bar> \<and> ?closestRow \<le> q)" by auto
    from mem have memr: "?closestRow \<in> terminalRow ` set pm"
      unfolding rows [symmetric] rows_set .
    from first have firstr: "\<forall>r' \<in> terminalRow ` set pm. \<bar>?closestRow - py\<bar> < \<bar>r' - py\<bar>
          \<or> (\<bar>?closestRow - py\<bar> = \<bar>r' - py\<bar> \<and> ?closestRow \<le> r')"
      unfolding rows [symmetric] rows_set .
    let ?entries = "filter (\<lambda>p. terminalRow p = ?closestRow) pm"
    from memr have ne: "?entries \<noteq> []" by (auto simp: filter_empty_conv)
    then have ne': "map sourceOffset ?entries \<noteq> []" by simp
    have offs: "set (map sourceOffset ?entries)
        = sourceOffset ` {p \<in> set pm. terminalRow p = ?closestRow}" by auto
    let ?off = "if py < ?closestRow then minOf (map sourceOffset ?entries)
                else maxOf (map sourceOffset ?entries)"
    have res: "terminalToOffset px py pm = Inr (Some ?off)"
      using None True rows ne by (simp add: terminalToOffset_def reduce_def Let_def)
    have off: "?off = (if py < ?closestRow
        then Min (sourceOffset ` {p \<in> set pm. terminalRow p = ?closestRow})
        else Max (sourceOffset ` {p \<in> set pm. terminalRow p = ?closestRow}))"
      using minOf_Min [OF ne'] maxOf_Max [OF ne'] by (simp only: offs)
    have third: "\<exists>r \<in> terminalRow ` set pm.
           (\<forall>r' \<in> terminalRow ` set pm.
               \<bar>r - py\<bar> < \<bar>r' - py\<bar> \<or> (\<bar>r - py\<bar> = \<bar>r' - py\<bar> \<and> r \<le> r')) \<and>
           ?off = (if py < r then Min (sourceOffset ` {p \<in> set pm. terminalRow p = r})
                  else Max (sourceOffset ` {p \<in> set pm. terminalRow p = r}))"
      using memr firstr off by (intro bexI [of _ ?closestRow] conjI)
    show ?thesis
    proof (intro exI [of _ ?off] conjI allI impI)
      show "terminalToOffset px py pm = Inr (Some ?off)" by (rule res)
    next
      fix exact
      assume "find (\<lambda>p. terminalRow p = py \<and> terminalCol p = px) pm = Some exact"
      with None show "?off = sourceOffset exact" by simp
    next
      assume "find (\<lambda>p. terminalRow p = py \<and> terminalCol p = px) pm = None
         \<and> (\<exists>p \<in> set pm. terminalRow p = py)"
      with norow show "\<exists>p \<in> set pm. terminalRow p = py \<and> ?off = sourceOffset p \<and>
           (\<forall>q \<in> set pm. terminalRow q = py \<longrightarrow>
               \<bar>terminalCol p - px\<bar> \<le> \<bar>terminalCol q - px\<bar>)" by blast
    next
      show "\<exists>r \<in> terminalRow ` set pm.
           (\<forall>r' \<in> terminalRow ` set pm.
               \<bar>r - py\<bar> < \<bar>r' - py\<bar> \<or> (\<bar>r - py\<bar> = \<bar>r' - py\<bar> \<and> r \<le> r')) \<and>
           ?off = (if py < r then Min (sourceOffset ` {p \<in> set pm. terminalRow p = r})
                  else Max (sourceOffset ` {p \<in> set pm. terminalRow p = r}))"
        by (rule third)
    qed
  qed
qed

theorem C6_terminalToOffset_witness:
  "terminalToOffset 2 1
     [\<lparr> sourceOffset = 0, terminalRow = 1, terminalCol = 1 \<rparr>,
      \<lparr> sourceOffset = 1, terminalRow = 1, terminalCol = 2 \<rparr>,
      \<lparr> sourceOffset = 5, terminalRow = 3, terminalCol = 1 \<rparr>] = Inr (Some 1)
   \<and> terminalToOffset 9 1
     [\<lparr> sourceOffset = 0, terminalRow = 1, terminalCol = 1 \<rparr>,
      \<lparr> sourceOffset = 1, terminalRow = 1, terminalCol = 2 \<rparr>,
      \<lparr> sourceOffset = 5, terminalRow = 3, terminalCol = 1 \<rparr>] = Inr (Some 1)
   \<and> terminalToOffset 1 2
     [\<lparr> sourceOffset = 0, terminalRow = 1, terminalCol = 1 \<rparr>,
      \<lparr> sourceOffset = 1, terminalRow = 1, terminalCol = 2 \<rparr>,
      \<lparr> sourceOffset = 5, terminalRow = 3, terminalCol = 1 \<rparr>] = Inr (Some 1)"
proof -
  let ?a = "\<lparr> sourceOffset = 0, terminalRow = 1, terminalCol = 1 \<rparr>"
  let ?b = "\<lparr> sourceOffset = 1, terminalRow = 1, terminalCol = 2 \<rparr>"
  let ?c = "\<lparr> sourceOffset = 5, terminalRow = 3, terminalCol = 1 \<rparr>"
  let ?pm = "[?a, ?b, ?c]"
  have ne: "?pm \<noteq> []" by simp
  have exact: "terminalToOffset 2 1 ?pm = Inr (Some 1)"
  proof -
    have f: "find (\<lambda>p. terminalRow p = 1 \<and> terminalCol p = 2) ?pm = Some ?b" by simp
    from C6_terminalToOffset [OF ne, of 2 1] f show ?thesis by auto
  qed
  have sameRow: "terminalToOffset 9 1 ?pm = Inr (Some 1)"
  proof -
    have f: "find (\<lambda>p. terminalRow p = 1 \<and> terminalCol p = 9) ?pm = None" by simp
    have r: "\<exists>p \<in> set ?pm. terminalRow p = 1" by simp
    from C6_terminalToOffset [OF ne, of 9 1] f r
    obtain off p where o: "terminalToOffset 9 1 ?pm = Inr (Some off)"
      and p: "p \<in> set ?pm" "terminalRow p = 1" "off = sourceOffset p"
        "\<forall>q \<in> set ?pm. terminalRow q = 1 \<longrightarrow> \<bar>terminalCol p - 9\<bar> \<le> \<bar>terminalCol q - 9\<bar>"
      by blast
    from p have "p = ?b" by auto
    with o p(3) show ?thesis by simp
  qed
  have otherRow: "terminalToOffset 1 2 ?pm = Inr (Some 1)"
  proof -
    have n: "\<forall>p \<in> set ?pm. terminalRow p \<noteq> 2" by simp
    from C6_terminalToOffset [OF ne, of 1 2] n
    obtain off r where o: "terminalToOffset 1 2 ?pm = Inr (Some off)"
      and r: "r \<in> terminalRow ` set ?pm"
        "\<forall>r' \<in> terminalRow ` set ?pm. \<bar>r - 2\<bar> < \<bar>r' - 2\<bar> \<or> (\<bar>r - 2\<bar> = \<bar>r' - 2\<bar> \<and> r \<le> r')"
        "off = (if 2 < r then Min (sourceOffset ` {p \<in> set ?pm. terminalRow p = r})
                else Max (sourceOffset ` {p \<in> set ?pm. terminalRow p = r}))"
      by blast
    from r(1,2) have r1: "r = 1" by auto
    have "{p \<in> set ?pm. terminalRow p = 1} = {?a, ?b}" by auto
    with r(3) r1 have "off = 1" by simp
    with o show ?thesis by simp
  qed
  from exact sameRow otherRow show ?thesis by blast
qed

section \<open>Selection normalization\<close>

text \<open>
  C7. A press that resolves to offset \<open>a\<close>, then any number of pointer moves, then a
  release: when \<open>b\<close> is the offset that the last move resolves to (and \<open>b = a\<close> when there
  is no move), the selection after the release has \<open>startOffset = min(a, b)\<close> and
  \<open>endOffset = max(a, b)\<close>. The release itself resolves no position: it keeps the range of
  the last move. And after every run of press, move and release events from the initial
  state, whenever \<open>startOffset\<close> and \<open>endOffset\<close> are both set, \<open>startOffset \<le> endOffset\<close>.
\<close>

theorem C7_selection_normalized:
  "(enabled po \<and> resolve po pe = Inr (Some a)
      \<and> (if ms = [] then b = a
          else enabled (fst (last ms)) \<and> resolve (fst (last ms)) (snd (last ms)) = Inr (Some b))
      \<and> handleEvents ((po, Press pe) # map (\<lambda>(opts, event). (opts, Move event)) ms @ [(ro, Release re)]) c0
          = Inr c
    \<longrightarrow> startOffset (selection c) = Some (min a b) \<and> endOffset (selection c) = Some (max a b))
   \<and> (handleEvents evs initialController = Inr c' \<longrightarrow> normalized (selection c'))"
proof (intro conjI impI)
  assume h: "enabled po \<and> resolve po pe = Inr (Some a)
      \<and> (if ms = [] then b = a
          else enabled (fst (last ms)) \<and> resolve (fst (last ms)) (snd (last ms)) = Inr (Some b))
      \<and> handleEvents ((po, Press pe) # map (\<lambda>(opts, event). (opts, Move event)) ms @ [(ro, Release re)]) c0
          = Inr c"
  then have en: "enabled po" and pr: "resolve po pe = Inr (Some a)"
    and lastb: "if ms = [] then b = a
          else enabled (fst (last ms)) \<and> resolve (fst (last ms)) (snd (last ms)) = Inr (Some b)"
    and run: "handleEvents ((po, Press pe) # map (\<lambda>(opts, event). (opts, Move event)) ms @ [(ro, Release re)]) c0
          = Inr c" by auto
  from handleClick_dragging [OF en pr, of c0]
  obtain c1 where c1: "handleClick po pe c0 = Inr c1" and d1: "dragging a a c1" by blast
  from run c1 have "handleEvents (map (\<lambda>(opts, event). (opts, Move event)) ms @ [(ro, Release re)]) c1 = Inr c"
    by simp
  then obtain c2 where c2: "handleEvents (map (\<lambda>(opts, event). (opts, Move event)) ms) c1 = Inr c2"
    and rel: "handleRelease ro re c2 = Inr c"
    by (auto simp: handleEvents_append split: sum.splits)
  have "dragging a b c2"
  proof (cases "ms = []")
    case True
    with moves_dragging [OF d1 c2, of b] lastb d1 show ?thesis by simp
  next
    case False
    with moves_dragging [OF d1 c2, of b] lastb show ?thesis by simp
  qed
  with handleRelease_selection [OF rel]
  show "startOffset (selection c) = Some (min a b)" "endOffset (selection c) = Some (max a b)"
    by (simp_all add: dragging_def)
next
  assume "handleEvents evs initialController = Inr c'"
  moreover have "normalized (selection initialController)"
    by (simp add: normalized_def initialController_def)
  ultimately show "normalized (selection c')" by (rule handleEvents_normalized [rotated])
qed

theorem C7_selection_normalized_witness:
  "enabled \<lparr> enabled = True,
        positionMap = [\<lparr> sourceOffset = 0, terminalRow = 1, terminalCol = 1 \<rparr>,
                       \<lparr> sourceOffset = 1, terminalRow = 1, terminalCol = 2 \<rparr>,
                       \<lparr> sourceOffset = 2, terminalRow = 1, terminalCol = 3 \<rparr>],
        content = str ''abc'', scrollOffset = 0, startCol = 0 \<rparr>
   \<and> (\<exists>c. handleEvents
          [(\<lparr> enabled = True,
               positionMap = [\<lparr> sourceOffset = 0, terminalRow = 1, terminalCol = 1 \<rparr>,
                              \<lparr> sourceOffset = 1, terminalRow = 1, terminalCol = 2 \<rparr>,
                              \<lparr> sourceOffset = 2, terminalRow = 1, terminalCol = 3 \<rparr>],
               content = str ''abc'', scrollOffset = 0, startCol = 0 \<rparr>,
             Press \<lparr> x = 3, y = 1 \<rparr>),
           (\<lparr> enabled = True,
               positionMap = [\<lparr> sourceOffset = 0, terminalRow = 1, terminalCol = 1 \<rparr>,
                              \<lparr> sourceOffset = 1, terminalRow = 1, terminalCol = 2 \<rparr>,
                              \<lparr> sourceOffset = 2, terminalRow = 1, terminalCol = 3 \<rparr>],
               content = str ''abc'', scrollOffset = 0, startCol = 0 \<rparr>,
             Move \<lparr> x = 1, y = 1 \<rparr>),
           (\<lparr> enabled = True,
               positionMap = [\<lparr> sourceOffset = 0, terminalRow = 1, terminalCol = 1 \<rparr>,
                              \<lparr> sourceOffset = 1, terminalRow = 1, terminalCol = 2 \<rparr>,
                              \<lparr> sourceOffset = 2, terminalRow = 1, terminalCol = 3 \<rparr>],
               content = str ''abc'', scrollOffset = 0, startCol = 0 \<rparr>,
             Release \<lparr> x = 1, y = 1 \<rparr>)]
          initialController = Inr c
        \<and> startOffset (selection c) = Some (min 2 0)
        \<and> endOffset (selection c) = Some (max 2 0)
        \<and> normalized (selection c))"
proof -
  let ?pm = "[\<lparr> sourceOffset = 0, terminalRow = 1, terminalCol = 1 \<rparr>,
              \<lparr> sourceOffset = 1, terminalRow = 1, terminalCol = 2 \<rparr>,
              \<lparr> sourceOffset = 2, terminalRow = 1, terminalCol = 3 \<rparr>]"
  let ?o = "\<lparr> enabled = True, positionMap = ?pm, content = str ''abc'', scrollOffset = 0,
              startCol = 0 \<rparr>"
  let ?press = "\<lparr> x = 3, y = 1 \<rparr>"
  let ?move = "\<lparr> x = 1, y = 1 \<rparr>"
  let ?evs = "[(?o, Press ?press), (?o, Move ?move), (?o, Release ?move)]"
  have en: "enabled ?o" by simp
  have ra: "resolve ?o ?press = Inr (Some 2)"
    by (simp add: resolve_def terminalToOffset_def)
  have rb: "resolve ?o ?move = Inr (Some 0)"
    by (simp add: resolve_def terminalToOffset_def)
  have "\<exists>c. handleEvents ?evs initialController = Inr c"
    by (simp add: handleClick_def handleMove_def handleRelease_def terminalToOffset_def
        initialController_def Let_def)
  then obtain c where c: "handleEvents ?evs initialController = Inr c" by blast
  from C7_selection_normalized
    [of ?o ?press 2 "[(?o, ?move)]" 0 ?o ?move initialController c ?evs c] en ra rb c
  have "startOffset (selection c) = Some (min 2 0) \<and> endOffset (selection c) = Some (max 2 0)
      \<and> normalized (selection c)" by simp
  with en c show ?thesis by blast
qed

section \<open>Re-wrapping a wrapped line\<close>

text \<open>
  C8, as the code has it. For every string \<open>s\<close> and every width \<open>w \<ge> 1\<close>, \<open>wordWrap(s, w)\<close>
  returns, every line \<open>L\<close> it returns has length at most \<open>w\<close> and satisfies
  \<open>wordWrap(L, w) = [L]\<close>, so wrapping a wrapped line again at the same width gives the
  same line. No line but the last ends with white space, and no line but the first begins
  with white space. (The first line may begin with white space and the last line may end
  with it; a text that fits the width is returned as it is.)
\<close>

theorem C8_rewrap:
  assumes "1 \<le> width"
  shows "\<exists>ls. wordWrap s width = Some ls
           \<and> list_all (\<lambda>l. int (length l) \<le> width \<and> wordWrap l width = Some [l]) ls
           \<and> list_all (\<lambda>l. trimEnd l = l) (butlast ls)
           \<and> list_all (\<lambda>l. trimStart l = l) (tl ls)"
proof -
  from wordWrap_lines [OF assms, of s] obtain ls where ls: "wordWrap s width = Some ls"
    "list_all (\<lambda>l. int (length l) \<le> width) ls"
    "list_all (\<lambda>l. trimEnd l = l) (butlast ls)"
    "list_all (\<lambda>l. trimStart l = l) (tl ls)" by blast
  from ls(2) have "list_all (\<lambda>l. int (length l) \<le> width \<and> wordWrap l width = Some [l]) ls"
    by (simp add: list_all_iff wordWrap_def)
  with ls show ?thesis by blast
qed

theorem C8_rewrap_witness:
  "\<exists>ls. wordWrap (str ''aaaa bbbb cccc'') 9 = Some ls
        \<and> list_all (\<lambda>l. int (length l) \<le> 9 \<and> wordWrap l 9 = Some [l]) ls
        \<and> list_all (\<lambda>l. trimEnd l = l) (butlast ls)
        \<and> list_all (\<lambda>l. trimStart l = l) (tl ls)"
  using C8_rewrap [of 9 "str ''aaaa bbbb cccc''"] by simp

text \<open>
  As the specification states it, the property fails: at width 9 the text \<open>" a "\<close> is returned
  as its own single line, which begins and ends with a space.
\<close>

theorem C8_counterexample:
  "wordWrap (str '' a '') 9 = Some [str '' a '']
   \<and> hd (str '' a '') = 32 \<and> last (str '' a '') = 32"
  by (simp add: wordWrap_eval)

section \<open>The callback on release\<close>

text \<open>
  C9. In every state the controller reaches from its initial state, a release (with the
  hook enabled) calls the selection-changed callback exactly when the range is not empty,
  that is when \<open>startOffset \<noteq> endOffset\<close>, and then once, with the selection data of
  that range. A press that resolves to an offset and is released at once leaves
  \<open>startOffset = endOffset\<close>, its selection data is \<open>null\<close>, and neither the press nor the
  release calls the callback.
\<close>

theorem C9_release_callback:
  "(handleEvents evs initialController = Inr c \<and> enabled opts \<longrightarrow>
      (\<exists>c'. handleRelease opts event c = Inr c' \<and>
         (if startOffset (selection c) \<noteq> endOffset (selection c)
          then \<exists>d. notified c' = notified c @ [Some d]
                 \<and> Some (startOffset d) = startOffset (selection c)
                 \<and> Some (endOffset d) = endOffset (selection c)
          else notified c' = notified c)))
   \<and> (enabled po \<and> resolve po pe = Inr (Some a)
        \<and> handleEvents [(po, Press pe), (ro, Release re)] c0 = Inr c2 \<longrightarrow>
        startOffset (selection c2) = Some a \<and> endOffset (selection c2) = Some a
        \<and> getSelectionData doc (selection c2) = None \<and> notified c2 = notified c0)"
proof (intro conjI impI)
  assume "handleEvents evs initialController = Inr c \<and> enabled opts"
  then have run: "handleEvents evs initialController = Inr c" and en: "enabled opts" by auto
  have "paired (selection initialController)"
    by (simp add: paired_def initialController_def)
  from handleEvents_paired [OF this run] have "paired (selection c)" .
  from handleRelease_notified [OF this en]
  show "\<exists>c'. handleRelease opts event c = Inr c' \<and>
         (if startOffset (selection c) \<noteq> endOffset (selection c)
          then \<exists>d. notified c' = notified c @ [Some d]
                 \<and> Some (startOffset d) = startOffset (selection c)
                 \<and> Some (endOffset d) = endOffset (selection c)
          else notified c' = notified c)" .
next
  assume h: "enabled po \<and> resolve po pe = Inr (Some a)
        \<and> handleEvents [(po, Press pe), (ro, Release re)] c0 = Inr c2"
  then have en: "enabled po" and pr: "resolve po pe = Inr (Some a)"
    and run: "handleEvents [(po, Press pe), (ro, Release re)] c0 = Inr c2" by auto
  from handleClick_dragging [OF en pr, of c0]
  obtain c1 where c1: "handleClick po pe c0 = Inr c1" and d1: "dragging a a c1"
    and n1: "notified c1 = notified c0" by blast
  from run c1 have rel: "handleRelease ro re c1 = Inr c2" by (simp split: sum.splits)
  from d1 have se: "startOffset (selection c1) = Some a" "endOffset (selection c1) = Some a"
    by (simp_all add: dragging_def)
  from handleRelease_selection [OF rel] se
  have se2: "startOffset (selection c2) = Some a" "endOffset (selection c2) = Some a" by simp_all
  from rel se n1 have n2: "notified c2 = notified c0"
    by (auto simp: handleRelease_def getSelectionData_def Let_def split: if_splits)
  from se2 have "getSelectionData doc (selection c2) = None"
    by (simp add: getSelectionData_def)
  with se2 n2
  show "startOffset (selection c2) = Some a" "endOffset (selection c2) = Some a"
    "getSelectionData doc (selection c2) = None" "notified c2 = notified c0" by simp_all
qed

theorem C9_release_callback_witness:
  "(\<exists>c c' d.
      handleEvents
        [(\<lparr> enabled = True,
             positionMap = [\<lparr> sourceOffset = 0, terminalRow = 1, terminalCol = 1 \<rparr>,
                            \<lparr> sourceOffset = 1, terminalRow = 1, terminalCol = 2 \<rparr>,
                            \<lparr> sourceOffset = 2, terminalRow = 1, terminalCol = 3 \<rparr>],
             content = str ''abc'', scrollOffset = 0, startCol = 0 \<rparr>,
           Press \<lparr> x = 3, y = 1 \<rparr>),
         (\<lparr> enabled = True,
             positionMap = [\<lparr> sourceOffset = 0, terminalRow = 1, terminalCol = 1 \<rparr>,
                            \<lparr> sourceOffset = 1, terminalRow = 1, terminalCol = 2 \<rparr>,
                            \<lparr> sourceOffset = 2, terminalRow = 1, terminalCol = 3 \<rparr>],
             content = str ''abc'', scrollOffset = 0, startCol = 0 \<rparr>,
           Move \<lparr> x = 1, y = 1 \<rparr>)]
        initialController = Inr c
      \<and> startOffset (selection c) = Some 0 \<and> endOffset (selection c) = Some 2
      \<and> handleRelease
          \<lparr> enabled = True,
             positionMap = [\<lparr> sourceOffset = 0, terminalRow = 1, terminalCol = 1 \<rparr>,
                            \<lparr> sourceOffset = 1, terminalRow = 1, terminalCol = 2 \<rparr>,
                            \<lparr> sourceOffset = 2, terminalRow = 1, terminalCol = 3 \<rparr>],
             content = str ''abc'', scrollOffset = 0, startCol = 0 \<rparr>
          \<lparr> x = 1, y = 1 \<rparr> c = Inr c'
      \<and> notified c' = notified c @ [Some d] \<and> startOffset d = 0 \<and> endOffset d = 2)
   \<and> (\<exists>c2.
      handleEvents
        [(\<lparr> enabled = True,
             positionMap = [\<lparr> sourceOffset = 0, terminalRow = 1, terminalCol = 1 \<rparr>,
                            \<lparr> sourceOffset = 1, terminalRow = 1, terminalCol = 2 \<rparr>,
                            \<lparr> sourceOffset = 2, terminalRow = 1, terminalCol = 3 \<rparr>],
             content = str ''abc'', scrollOffset = 0, startCol = 0 \<rparr>,
           Press \<lparr> x = 3, y = 1 \<rparr>),
         (\<lparr> enabled = True,
             positionMap = [\<lparr> sourceOffset = 0, terminalRow = 1, terminalCol = 1 \<rparr>,
                            \<lparr> sourceOffset = 1, terminalRow = 1, terminalCol = 2 \<rparr>,
                            \<lparr> sourceOffset = 2, terminalRow = 1, terminalCol = 3 \<rparr>],
             content = str ''abc'', scrollOffset = 0, startCol = 0 \<rparr>,
           Release \<lparr> x = 3, y = 1 \<rparr>)]
        initialController = Inr c2
      \<and> startOffset (selection c2) = Some 2 \<and> endOffset (selection c2) = Some 2
      \<and> getSelectionData (str ''abc'') (selection c2) = None
      \<and> notified c2 = notified initialController)"
proof -
  let ?pm = "[\<lparr> sourceOffset = 0, terminalRow = 1, terminalCol = 1 \<rparr>,
              \<lparr> sourceOffset = 1, terminalRow = 1, terminalCol = 2 \<rparr>,
              \<lparr> sourceOffset = 2, terminalRow = 1, terminalCol = 3 \<rparr>]"
  let ?o = "\<lparr> enabled = True, positionMap = ?pm, content = str ''abc'', scrollOffset = 0,
              startCol = 0 \<rparr>"
  let ?press = "\<lparr> x = 3, y = 1 \<rparr>"
  let ?move = "\<lparr> x = 1, y = 1 \<rparr>"
  let ?drag = "[(?o, Press ?press), (?o, Move ?move)]"
  let ?click = "[(?o, Press ?press), (?o, Release ?press)]"
  have en: "enabled ?o" by simp
  have ra: "resolve ?o ?press = Inr (Some 2)"
    by (simp add: resolve_def terminalToOffset_def)
  have "\<exists>c. handleEvents ?drag initialController = Inr c
      \<and> startOffset (selection c) = Some 0 \<and> endOffset (selection c) = Some 2"
    by (simp add: handleClick_def handleMove_def terminalToOffset_def initialController_def
        Let_def)
  then obtain c where c: "handleEvents ?drag initialController = Inr c"
    and se: "startOffset (selection c) = Some 0" "endOffset (selection c) = Some 2" by blast
  from se have ne: "startOffset (selection c) \<noteq> endOffset (selection c)" by simp
  from C9_release_callback
    [of ?drag c ?o ?move ?o ?press 2 ?o ?press initialController c "str ''abc''"] c en ne
  obtain c' d where "handleRelease ?o ?move c = Inr c'"
    "notified c' = notified c @ [Some d]"
    "Some (startOffset d) = startOffset (selection c)"
    "Some (endOffset d) = endOffset (selection c)" by auto
  with c se have first: "\<exists>c c' d. handleEvents ?drag initialController = Inr c
      \<and> startOffset (selection c) = Some 0 \<and> endOffset (selection c) = Some 2
      \<and> handleRelease ?o ?move c = Inr c'
      \<and> notified c' = notified c @ [Some d] \<and> startOffset d = 0 \<and> endOffset d = 2"
    by auto
  have "\<exists>c2. handleEvents ?click initialController = Inr c2"
    by (simp add: handleClick_def handleRelease_def terminalToOffset_def
        initialController_def Let_def)
  then obtain c2 where c2: "handleEvents ?click initialController = Inr c2" by blast
  from C9_release_callback
    [of "[]" initialController ?o ?move ?o ?press 2 ?o ?press initialController c2 "str ''abc''"]
    en ra c2
  have "startOffset (selection c2) = Some 2 \<and> endOffset (selection c2) = Some 2
      \<and> getSelectionData (str ''abc'') (selection c2) = None
      \<and> notified c2 = notified initialController" by simp
  with c2 have second: "\<exists>c2. handleEvents ?click initialController = Inr c2
      \<and> startOffset (selection c2) = Some 2 \<and> endOffset (selection c2) = Some 2
      \<and> getSelectionData (str ''abc'') (selection c2) = None
      \<and> notified c2 = notified initialController" by blast
  from first second show ?thesis by (rule conjI)
qed

section \<open>Termination of the reflow\<close>

text \<open>
  C10, as the code has it. For every string and every width \<open>w \<ge> 1\<close>, \<open>wordWrap\<close> returns:
  in each pass of the loop the break point is at least 1 and the remaining text becomes
  shorter. The bound is tight: at width 0 the text \<open>"a"\<close> is never consumed and the loop does
  not return. \<open>renderBlocks\<close> wraps list items and block quotes at \<open>terminalWidth - 2\<close>
  and draws a rule of \<open>min(terminalWidth - 4, 60)\<close> characters; it returns for every
  document at every terminal width of at least 4.
\<close>

theorem C10_wordWrap_terminates:
  "(1 \<le> width \<longrightarrow>
      (\<exists>ls. wordWrap s width = Some ls) \<and>
      (width < int (length remaining) \<longrightarrow>
         1 \<le> breakPoint remaining width \<and>
         length (trimStart (sliceFrom remaining (breakPoint remaining width)))
           < length remaining)) \<and>
   wordWrap (str ''a'') 0 = None \<and>
   (4 \<le> terminalWidth \<longrightarrow>
      (\<exists>lines. renderBlocks (parseBlocks text) terminalWidth = Some (Inr lines)))"
proof (intro conjI impI)
  assume "1 \<le> width"
  from wordWrap_lines [OF this, of s] show "\<exists>ls. wordWrap s width = Some ls" by blast
next
  assume w: "1 \<le> width" and long: "width < int (length remaining)"
  from breakPoint_range [OF w, of remaining]
  show "1 \<le> breakPoint remaining width" by simp
next
  assume w: "1 \<le> width" and long: "width < int (length remaining)"
  let ?bp = "breakPoint remaining width"
  from breakPoint_range [OF w, of remaining] have bp: "1 \<le> ?bp" "?bp \<le> width" by auto
  have "int (length (trimStart (sliceFrom remaining ?bp)))
      \<le> int (length (sliceFrom remaining ?bp))"
    using length_trimStart [of "sliceFrom remaining ?bp"] by simp
  also have "\<dots> < int (length remaining)"
    using bp long by (simp add: length_sliceFrom)
  finally show "length (trimStart (sliceFrom remaining ?bp)) < length remaining" by simp
next
  show "wordWrap (str ''a'') 0 = None"
    by (simp add: wordWrap_def wordWrapLoop_diverges str_def isWhitespace_def)
next
  assume "4 \<le> terminalWidth"
  from renderBlocksLoop_total [OF this]
  show "\<exists>lines. renderBlocks (parseBlocks text) terminalWidth = Some (Inr lines)"
    by (simp add: renderBlocks_def)
qed

theorem C10_wordWrap_terminates_witness:
  "(\<exists>ls. wordWrap (str ''aaaa bbbb cccc'') 9 = Some ls) \<and>
   1 \<le> breakPoint (str ''aaaa bbbb cccc'') 9 \<and>
   length (trimStart (sliceFrom (str ''aaaa bbbb cccc'')
             (breakPoint (str ''aaaa bbbb cccc'') 9)))
     < length (str ''aaaa bbbb cccc'') \<and>
   wordWrap (str ''a'') 0 = None \<and>
   (\<exists>lines. renderBlocks (parseBlocks (str ''# Hello'')) 80 = Some (Inr lines))"
proof -
  have long: "(9::int) < int (length (str ''aaaa bbbb cccc''))" by (simp add: str_def)
  from C10_wordWrap_terminates
    [of 9 "str ''aaaa bbbb cccc''" "str ''aaaa bbbb cccc''" 80 "str ''# Hello''"] long
  show ?thesis by simp
qed

text \<open>
  The render pipeline is not total for every positive width. At terminal width 2 the
  list item \<open>"- a"\<close> is wrapped at width 0 and \<open>renderBlocks\<close> never returns; at terminal
  width 3 the rule \<open>"---"\<close> makes \<open>repeat\<close> throw a \<open>RangeError\<close>.
\<close>

theorem C10_counterexample:
  "renderBlocks (parseBlocks (str ''- a'')) 2 = None \<and>
   renderBlocks (parseBlocks (str ''---'')) 3 = Some (Inl RangeError)"
  by (simp add: blocks_eval render_eval wordWrap_def wordWrapLoop_diverges inline_eval
      string_defs cong: option.case_cong_weak)

end
